theory Spec2Isabelle
  imports Main "HOL-Library.Word"
begin

section \<open>Memory model of \<open>single-linked-list.h\<close>\<close>

text \<open>
  The container is a chain of heap nodes hanging off a sentinel node \<open>head_\<close> that is a
  member of the list object. Iterators hold a raw \<open>Node*\<close>, which may point to a heap
  node or to the sentinel of a list object, so every \<open>Node\<close> (sentinels included) lives
  in one store indexed by its address. A list object is identified by the address of
  its \<open>head_\<close> member; its \<open>size_\<close> member is kept in the map \<open>list_size\<close> under the same
  address. Pointers and \<open>size_t\<close> are 64 bits wide; \<open>nullptr\<close> is \<open>None\<close>.
\<close>

type_synonym addr = "64 word"
type_synonym size_t = "64 word"

record 'a Node =
  node_value :: 'a
  next_node :: "addr option"

text \<open>
  \<open>deleted\<close> records, in order, the payload of every node released by a
  \<open>delete\<close> expression (the run of the payload's destructor).
\<close>

record 'a memory =
  node :: "addr \<rightharpoonup> 'a Node"
  list_size :: "addr \<rightharpoonup> size_t"
  deleted :: "'a list"

datatype exn = bad_alloc | copy_exception

text \<open>
  Results of \<open>noexcept\<close> reads: a value, a failed \<open>assert\<close>, or an access to an object
  that is not live (undefined behaviour).
\<close>

datatype 'r access = Value 'r | AssertFailed | BadAccess

text \<open>
  Results of the operations that change memory. An exception leaves the memory it was
  thrown in to the caller.
\<close>

datatype ('r, 's) outcome = Returns 'r 's | Throws exn 's | Aborts | Undefined

text \<open>
  What one evaluation of \<open>new Node(value, next)\<close> does: storage is obtained at an
  address and the payload is copied into it, or \<open>operator new\<close> or the copy constructor
  of \<open>Type\<close> throws (the storage, if any, is given back before the exception leaves the
  expression).
\<close>

datatype alloc = At addr | Fails exn

definition new_Node :: "alloc \<Rightarrow> 'a \<Rightarrow> addr option \<Rightarrow> 'a memory \<Rightarrow> (addr, 'a memory) outcome" where
  "new_Node al val nxt s =
     (case al of
        Fails e \<Rightarrow> Throws e s
      | At a \<Rightarrow> Returns a (s\<lparr>node := (node s)(a \<mapsto> \<lparr>node_value = val, next_node = nxt\<rparr>)\<rparr>))"

definition delete_Node :: "addr \<Rightarrow> 'a memory \<Rightarrow> (unit, 'a memory) outcome" where
  "delete_Node a s =
     (case node s a of
        None \<Rightarrow> Undefined
      | Some n \<Rightarrow> Returns () (s\<lparr>node := (node s)(a := None), deleted := deleted s @ [node_value n]\<rparr>))"

subsection \<open>\<open>BasicIterator\<close>\<close>

text \<open>An iterator is its \<open>node_\<close> member.\<close>

type_synonym iter = "addr option"

definition iter_eq :: "iter \<Rightarrow> iter \<Rightarrow> bool" where
  "iter_eq lhs rhs = (rhs = lhs)"

definition iter_neq :: "iter \<Rightarrow> iter \<Rightarrow> bool" where
  "iter_neq lhs rhs = (rhs \<noteq> lhs)"

text \<open>\<open>operator++\<close>: \<open>if (node_) node_ = node_->next_node\<close>.\<close>

definition iter_inc :: "'a memory \<Rightarrow> iter \<Rightarrow> iter access" where
  "iter_inc s it =
     (case it of
        None \<Rightarrow> Value None
      | Some a \<Rightarrow> (case node s a of None \<Rightarrow> BadAccess | Some n \<Rightarrow> Value (next_node n)))"

text \<open>\<open>operator*\<close>: \<open>assert(node_ != nullptr); return node_->value\<close>.\<close>

definition iter_deref :: "'a memory \<Rightarrow> iter \<Rightarrow> 'a access" where
  "iter_deref s it =
     (case it of
        None \<Rightarrow> AssertFailed
      | Some a \<Rightarrow> (case node s a of None \<Rightarrow> BadAccess | Some n \<Rightarrow> Value (node_value n)))"

subsection \<open>Positions of a list\<close>

definition list_begin :: "addr \<Rightarrow> 'a memory \<Rightarrow> iter access" where
  "list_begin this s = (case node s this of None \<Rightarrow> BadAccess | Some h \<Rightarrow> Value (next_node h))"

definition list_end :: iter where
  "list_end = None"

definition const_begin :: "addr \<Rightarrow> 'a memory \<Rightarrow> iter access" where
  "const_begin this s = (case node s this of None \<Rightarrow> BadAccess | Some h \<Rightarrow> Value (next_node h))"

definition const_end :: iter where
  "const_end = None"

definition cbegin :: "addr \<Rightarrow> 'a memory \<Rightarrow> iter access" where
  "cbegin this s = (case node s this of None \<Rightarrow> BadAccess | Some h \<Rightarrow> Value (next_node h))"

definition cend :: iter where
  "cend = None"

definition before_begin :: "addr \<Rightarrow> iter" where
  "before_begin this = Some this"

definition cbefore_begin :: "addr \<Rightarrow> iter" where
  "cbefore_begin this = Some this"

definition const_before_begin :: "addr \<Rightarrow> iter" where
  "const_before_begin this = cbefore_begin this"

subsection \<open>Size\<close>

definition GetSize :: "addr \<Rightarrow> 'a memory \<Rightarrow> size_t access" where
  "GetSize this s = (case list_size s this of None \<Rightarrow> BadAccess | Some n \<Rightarrow> Value n)"

definition IsEmpty :: "addr \<Rightarrow> 'a memory \<Rightarrow> bool access" where
  "IsEmpty this s = (case list_size s this of None \<Rightarrow> BadAccess | Some n \<Rightarrow> Value (n = 0))"

subsection \<open>Mutators\<close>

definition PushFront :: "alloc \<Rightarrow> 'a \<Rightarrow> addr \<Rightarrow> 'a memory \<Rightarrow> (unit, 'a memory) outcome" where
  "PushFront al val this s =
     (case node s this of
        None \<Rightarrow> Undefined
      | Some h \<Rightarrow>
         (case new_Node al val (next_node h) s of
            Returns p s1 \<Rightarrow>
              (case list_size s1 this of
                 None \<Rightarrow> Undefined
               | Some n \<Rightarrow>
                   Returns () (s1\<lparr>node := (node s1)(this \<mapsto> h\<lparr>next_node := Some p\<rparr>),
                                  list_size := (list_size s1)(this \<mapsto> n + 1)\<rparr>))
          | Throws e s1 \<Rightarrow> Throws e s1
          | Aborts \<Rightarrow> Aborts
          | Undefined \<Rightarrow> Undefined))"

definition InsertAfter :: "alloc \<Rightarrow> iter \<Rightarrow> 'a \<Rightarrow> addr \<Rightarrow> 'a memory \<Rightarrow> (iter, 'a memory) outcome" where
  "InsertAfter al pos val this s =
     (case pos of
        None \<Rightarrow> Aborts
      | Some p \<Rightarrow>
         (case node s p of
            None \<Rightarrow> Undefined
          | Some pn \<Rightarrow>
             (case new_Node al val (next_node pn) s of
                Returns add_elem s1 \<Rightarrow>
                  (case node s1 p of
                     None \<Rightarrow> Undefined
                   | Some pn1 \<Rightarrow>
                      (case list_size s1 this of
                         None \<Rightarrow> Undefined
                       | Some n \<Rightarrow>
                           Returns (Some add_elem)
                             (s1\<lparr>node := (node s1)(p \<mapsto> pn1\<lparr>next_node := Some add_elem\<rparr>),
                                 list_size := (list_size s1)(this \<mapsto> n + 1)\<rparr>)))
              | Throws e s1 \<Rightarrow> Throws e s1
              | Aborts \<Rightarrow> Aborts
              | Undefined \<Rightarrow> Undefined)))"

definition PopFront :: "addr \<Rightarrow> 'a memory \<Rightarrow> (unit, 'a memory) outcome" where
  "PopFront this s =
     (case IsEmpty this s of
        Value emp \<Rightarrow>
          (if \<not> emp then
             (case node s this of
                None \<Rightarrow> Undefined
              | Some h \<Rightarrow>
                 (case next_node h of
                    None \<Rightarrow> Undefined
                  | Some erase_el \<Rightarrow>
                     (case node s erase_el of
                        None \<Rightarrow> Undefined
                      | Some en \<Rightarrow>
                         (case delete_Node erase_el
                                 (s\<lparr>node := (node s)(this \<mapsto> h\<lparr>next_node := next_node en\<rparr>)\<rparr>) of
                            Returns u s1 \<Rightarrow>
                              (case list_size s1 this of
                                 None \<Rightarrow> Undefined
                               | Some n \<Rightarrow> Returns () (s1\<lparr>list_size := (list_size s1)(this \<mapsto> n - 1)\<rparr>))
                          | Throws e s1 \<Rightarrow> Undefined
                          | Aborts \<Rightarrow> Aborts
                          | Undefined \<Rightarrow> Undefined))))
           else Returns () s)
      | AssertFailed \<Rightarrow> Aborts
      | BadAccess \<Rightarrow> Undefined)"

definition EraseAfter :: "iter \<Rightarrow> addr \<Rightarrow> 'a memory \<Rightarrow> (iter, 'a memory) outcome" where
  "EraseAfter pos this s =
     (case pos of
        None \<Rightarrow> Undefined
      | Some p \<Rightarrow>
         (case node s p of
            None \<Rightarrow> Undefined
          | Some pn \<Rightarrow>
             (case next_node pn of
                None \<Rightarrow> Returns None s
              | Some del_elem \<Rightarrow>
                 (case node s del_elem of
                    None \<Rightarrow> Undefined
                  | Some dn \<Rightarrow>
                     (case delete_Node del_elem
                             (s\<lparr>node := (node s)(p \<mapsto> pn\<lparr>next_node := next_node dn\<rparr>)\<rparr>) of
                        Returns u s1 \<Rightarrow>
                          (case list_size s1 this of
                             None \<Rightarrow> Undefined
                           | Some n \<Rightarrow>
                              (case node s1 p of
                                 None \<Rightarrow> Undefined
                               | Some pn1 \<Rightarrow>
                                   Returns (next_node pn1)
                                     (s1\<lparr>list_size := (list_size s1)(this \<mapsto> n - 1)\<rparr>)))
                      | Throws e s1 \<Rightarrow> Undefined
                      | Aborts \<Rightarrow> Aborts
                      | Undefined \<Rightarrow> Undefined)))))"

subsection \<open>Constructors\<close>

text \<open>
  Every constructor first initialises the members: \<open>head_\<close> is a default \<open>Node\<close>
  (payload \<open>Type{}\<close>, here the parameter \<open>dflt\<close>, and no successor) and \<open>size_\<close> is 0.
  \<open>this\<close> is the address of the storage the object is constructed in.
\<close>

definition init_members :: "'a \<Rightarrow> addr \<Rightarrow> 'a memory \<Rightarrow> 'a memory" where
  "init_members dflt this s =
     s\<lparr>node := (node s)(this \<mapsto> \<lparr>node_value = dflt, next_node = None\<rparr>),
       list_size := (list_size s)(this \<mapsto> 0)\<rparr>"

text \<open>The storage of a list object goes away when its lifetime ends.\<close>

definition release_object :: "addr \<Rightarrow> 'a memory \<Rightarrow> 'a memory" where
  "release_object this s =
     s\<lparr>node := (node s)(this := None), list_size := (list_size s)(this := None)\<rparr>"

definition SingleLinkedList_default :: "'a \<Rightarrow> addr \<Rightarrow> 'a memory \<Rightarrow> (unit, 'a memory) outcome" where
  "SingleLinkedList_default dflt this s = Returns () (init_members dflt this s)"

text \<open>
  The loop that both the initializer-list constructor and the copy constructor run
  for one element: the first element is hung on \<open>head_\<close> of the list under
  construction (\<open>target\<close>), each later one on the node \<open>next\<close> appended before it.
  \<open>next\<close> is uninitialised (here \<open>None\<close>) until the first element is in.
\<close>

definition append_node ::
  "alloc \<Rightarrow> 'a \<Rightarrow> addr \<Rightarrow> addr option \<Rightarrow> bool \<Rightarrow> 'a memory \<Rightarrow> (addr, 'a memory) outcome" where
  "append_node al val target next first s =
     (if first then
        (case new_Node al val None s of
           Returns p s1 \<Rightarrow>
             (case node s1 target of
                None \<Rightarrow> Undefined
              | Some h \<Rightarrow>
                 (case list_size s1 target of
                    None \<Rightarrow> Undefined
                  | Some n \<Rightarrow>
                      Returns p (s1\<lparr>node := (node s1)(target \<mapsto> h\<lparr>next_node := Some p\<rparr>),
                                    list_size := (list_size s1)(target \<mapsto> n + 1)\<rparr>)))
         | Throws e s1 \<Rightarrow> Throws e s1
         | Aborts \<Rightarrow> Aborts
         | Undefined \<Rightarrow> Undefined)
      else
        (case new_Node al val None s of
           Returns p s1 \<Rightarrow>
             (case next of
                None \<Rightarrow> Undefined
              | Some nx \<Rightarrow>
                 (case node s1 nx of
                    None \<Rightarrow> Undefined
                  | Some nn \<Rightarrow>
                     (case list_size s1 target of
                        None \<Rightarrow> Undefined
                      | Some n \<Rightarrow>
                          Returns p (s1\<lparr>node := (node s1)(nx \<mapsto> nn\<lparr>next_node := Some p\<rparr>),
                                        list_size := (list_size s1)(target \<mapsto> n + 1)\<rparr>))))
         | Throws e s1 \<Rightarrow> Throws e s1
         | Aborts \<Rightarrow> Aborts
         | Undefined \<Rightarrow> Undefined))"

text \<open>
  \<open>for (auto value : values)\<close> of the initializer-list constructor. \<open>als\<close> says what
  the successive \<open>new\<close> expressions do; when it is used up the free store is exhausted
  and \<open>new\<close> throws \<open>bad_alloc\<close>.
\<close>

fun init_loop ::
  "alloc list \<Rightarrow> 'a list \<Rightarrow> addr \<Rightarrow> addr option \<Rightarrow> bool \<Rightarrow> 'a memory \<Rightarrow> (unit, 'a memory) outcome" where
  "init_loop als [] this next first s = Returns () s"
| "init_loop als (val # values) this next first s =
     (case append_node (case als of [] \<Rightarrow> Fails bad_alloc | al # rest \<Rightarrow> al) val this next first s of
        Returns p s1 \<Rightarrow> init_loop (tl als) values this (Some p) False s1
      | Throws e s1 \<Rightarrow> Throws e s1
      | Aborts \<Rightarrow> Aborts
      | Undefined \<Rightarrow> Undefined)"

text \<open>
  An exception that leaves a constructor ends the object under construction: its
  members are destroyed and its storage is released. The nodes already allocated stay.
\<close>

definition SingleLinkedList_init ::
  "'a \<Rightarrow> alloc list \<Rightarrow> 'a list \<Rightarrow> addr \<Rightarrow> 'a memory \<Rightarrow> (unit, 'a memory) outcome" where
  "SingleLinkedList_init dflt als values this s =
     (if length values \<noteq> 0 then
        (case init_loop als values this None True (init_members dflt this s) of
           Returns u s1 \<Rightarrow> Returns () s1
         | Throws e s1 \<Rightarrow> Throws e (release_object this s1)
         | Aborts \<Rightarrow> Aborts
         | Undefined \<Rightarrow> Undefined)
      else Returns () (init_members dflt this s))"

subsection \<open>\<open>swap\<close>, \<open>Clear\<close>, destructor\<close>

definition swap_lists :: "addr \<Rightarrow> addr \<Rightarrow> 'a memory \<Rightarrow> (unit, 'a memory) outcome" where
  "swap_lists this other s =
     (case node s this of
        None \<Rightarrow> Undefined
      | Some h \<Rightarrow>
         (case node s other of
            None \<Rightarrow> Undefined
          | Some oh \<Rightarrow>
             (case list_size s this of
                None \<Rightarrow> Undefined
              | Some n \<Rightarrow>
                 (case list_size s other of
                    None \<Rightarrow> Undefined
                  | Some m \<Rightarrow>
                      Returns ()
                        (s\<lparr>node := (node s)(this \<mapsto> h\<lparr>next_node := next_node oh\<rparr>,
                                             other \<mapsto> oh\<lparr>next_node := next_node h\<rparr>),
                           list_size := (list_size s)(this \<mapsto> m, other \<mapsto> n)\<rparr>)))))"

text \<open>
  The loop of \<open>Clear\<close>. It need not end on a memory whose chain runs in a circle through
  live nodes, so it is a partial function: \<open>None\<close> is a loop that does not return.
\<close>

partial_function (option) Clear_loop :: "addr \<Rightarrow> 'a memory \<Rightarrow> (unit, 'a memory) outcome option" where
  "Clear_loop this s =
     (case node s this of
        None \<Rightarrow> Some Undefined
      | Some h \<Rightarrow>
         (case next_node h of
            None \<Rightarrow> Some (Returns () s)
          | Some element \<Rightarrow>
             (case node s element of
                None \<Rightarrow> Some Undefined
              | Some en \<Rightarrow>
                 (case delete_Node element
                         (s\<lparr>node := (node s)(this \<mapsto> h\<lparr>next_node := next_node en\<rparr>)\<rparr>) of
                    Returns u s1 \<Rightarrow> Clear_loop this s1
                  | Throws e s1 \<Rightarrow> Some Undefined
                  | Aborts \<Rightarrow> Some Aborts
                  | Undefined \<Rightarrow> Some Undefined))))"

definition Clear :: "addr \<Rightarrow> 'a memory \<Rightarrow> (unit, 'a memory) outcome option" where
  "Clear this s =
     (case Clear_loop this s of
        None \<Rightarrow> None
      | Some (Returns u s1) \<Rightarrow>
         (case list_size s1 this of
            None \<Rightarrow> Some Undefined
          | Some n \<Rightarrow> Some (Returns () (s1\<lparr>list_size := (list_size s1)(this \<mapsto> 0)\<rparr>)))
      | Some (Throws e s1) \<Rightarrow> Some Undefined
      | Some Aborts \<Rightarrow> Some Aborts
      | Some Undefined \<Rightarrow> Some Undefined)"

definition destructor :: "addr \<Rightarrow> 'a memory \<Rightarrow> (unit, 'a memory) outcome option" where
  "destructor this s =
     (case Clear this s of
        None \<Rightarrow> None
      | Some (Returns u s1) \<Rightarrow> Some (Returns () (release_object this s1))
      | Some (Throws e s1) \<Rightarrow> Some Undefined
      | Some Aborts \<Rightarrow> Some Aborts
      | Some Undefined \<Rightarrow> Some Undefined)"


subsection \<open>Copy constructor\<close>

text \<open>
  \<open>for (auto value : other)\<close> of the copy constructor: the range-based loop runs an
  iterator from \<open>other.begin()\<close> to \<open>other.end()\<close> and appends a copy of each payload to
  \<open>temp\<close>. Each round takes one entry of \<open>als\<close>; when \<open>als\<close> is used up the free store
  is exhausted and \<open>new\<close> throws \<open>bad_alloc\<close>.
\<close>

fun copy_loop ::
  "alloc list \<Rightarrow> iter \<Rightarrow> addr \<Rightarrow> addr option \<Rightarrow> bool \<Rightarrow> 'a memory \<Rightarrow> (unit, 'a memory) outcome" where
  "copy_loop [] it temp next first s =
     (if iter_neq it const_end then
        (case iter_deref s it of
           Value val \<Rightarrow> Throws bad_alloc s
         | AssertFailed \<Rightarrow> Aborts
         | BadAccess \<Rightarrow> Undefined)
      else Returns () s)"
| "copy_loop (al # als) it temp next first s =
     (if iter_neq it const_end then
        (case iter_deref s it of
           Value val \<Rightarrow>
             (case append_node al val temp next first s of
                Returns p s1 \<Rightarrow>
                  (case iter_inc s1 it of
                     Value it1 \<Rightarrow> copy_loop als it1 temp (Some p) False s1
                   | AssertFailed \<Rightarrow> Aborts
                   | BadAccess \<Rightarrow> Undefined)
              | Throws e s1 \<Rightarrow> Throws e s1
              | Aborts \<Rightarrow> Aborts
              | Undefined \<Rightarrow> Undefined)
         | AssertFailed \<Rightarrow> Aborts
         | BadAccess \<Rightarrow> Undefined)
      else Returns () s)"

text \<open>
  \<open>temp\<close> is the address of the local list \<open>temp\<close>. Leaving its scope, normally or by
  an exception, runs its destructor; an exception then also ends the object under
  construction.
\<close>

definition SingleLinkedList_copy ::
  "'a \<Rightarrow> alloc list \<Rightarrow> addr \<Rightarrow> addr \<Rightarrow> addr \<Rightarrow> 'a memory \<Rightarrow> (unit, 'a memory) outcome option" where
  "SingleLinkedList_copy dflt als temp other this s =
     (case IsEmpty other (init_members dflt this s) of
        Value emp \<Rightarrow>
          (if \<not> emp then
             (case const_begin other (init_members dflt temp (init_members dflt this s)) of
                Value b \<Rightarrow>
                  (case copy_loop als b temp None True
                          (init_members dflt temp (init_members dflt this s)) of
                     Returns u s1 \<Rightarrow>
                       (case swap_lists this temp s1 of
                          Returns v s2 \<Rightarrow> destructor temp s2
                        | Throws e s2 \<Rightarrow> Some Undefined
                        | Aborts \<Rightarrow> Some Aborts
                        | Undefined \<Rightarrow> Some Undefined)
                   | Throws e s1 \<Rightarrow>
                       (case destructor temp s1 of
                          None \<Rightarrow> None
                        | Some (Returns v s2) \<Rightarrow> Some (Throws e (release_object this s2))
                        | Some (Throws e2 s2) \<Rightarrow> Some Undefined
                        | Some Aborts \<Rightarrow> Some Aborts
                        | Some Undefined \<Rightarrow> Some Undefined)
                   | Aborts \<Rightarrow> Some Aborts
                   | Undefined \<Rightarrow> Some Undefined)
              | AssertFailed \<Rightarrow> Some Aborts
              | BadAccess \<Rightarrow> Some Undefined)
           else Some (Returns () (init_members dflt this s)))
      | AssertFailed \<Rightarrow> Some Aborts
      | BadAccess \<Rightarrow> Some Undefined)"

text \<open>
  Copy assignment: \<open>if (&rhs != this) { SingleLinkedList temp(rhs); swap(temp); }\<close>.
  \<open>temp\<close> is the address of the local copy, \<open>temp2\<close> that of the local list inside
  the copy constructor.
\<close>

definition operator_assign ::
  "'a \<Rightarrow> alloc list \<Rightarrow> addr \<Rightarrow> addr \<Rightarrow> addr \<Rightarrow> addr \<Rightarrow> 'a memory \<Rightarrow> (unit, 'a memory) outcome option" where
  "operator_assign dflt als temp temp2 rhs this s =
     (if rhs \<noteq> this then
        (case SingleLinkedList_copy dflt als temp2 rhs temp s of
           None \<Rightarrow> None
         | Some (Returns u s1) \<Rightarrow>
             (case swap_lists this temp s1 of
                Returns v s2 \<Rightarrow> destructor temp s2
              | Throws e s2 \<Rightarrow> Some Undefined
              | Aborts \<Rightarrow> Some Aborts
              | Undefined \<Rightarrow> Some Undefined)
         | Some (Throws e s1) \<Rightarrow> Some (Throws e s1)
         | Some Aborts \<Rightarrow> Some Aborts
         | Some Undefined \<Rightarrow> Some Undefined)
      else Some (Returns () s))"

subsection \<open>Comparison\<close>

text \<open>
  \<open>std::equal(first1, last1, first2)\<close> as the C++ standard library defines it for forward
  iterators: the second range is given by its start only.
  \<^verbatim>\<open>for (; first1 != last1; ++first1, ++first2) if (!(*first1 == *first2)) return false;
return true;\<close>
\<close>

partial_function (option) std_equal :: "'a memory \<Rightarrow> iter \<Rightarrow> iter \<Rightarrow> iter \<Rightarrow> bool access option" where
  "std_equal s first1 last1 first2 =
     (if iter_neq first1 last1 then
        (case iter_deref s first1 of
           Value x \<Rightarrow>
             (case iter_deref s first2 of
                Value y \<Rightarrow>
                  (if \<not> (x = y) then Some (Value False)
                   else
                     (case iter_inc s first1 of
                        Value n1 \<Rightarrow>
                          (case iter_inc s first2 of
                             Value n2 \<Rightarrow> std_equal s n1 last1 n2
                           | AssertFailed \<Rightarrow> Some AssertFailed
                           | BadAccess \<Rightarrow> Some BadAccess)
                      | AssertFailed \<Rightarrow> Some AssertFailed
                      | BadAccess \<Rightarrow> Some BadAccess))
              | AssertFailed \<Rightarrow> Some AssertFailed
              | BadAccess \<Rightarrow> Some BadAccess)
         | AssertFailed \<Rightarrow> Some AssertFailed
         | BadAccess \<Rightarrow> Some BadAccess)
      else Some (Value True))"

text \<open>
  \<open>std::lexicographical_compare(first1, last1, first2, last2)\<close> as the C++ standard
  library defines it:
  \<^verbatim>\<open>for (; (first1 != last1) && (first2 != last2); ++first1, ++first2) {
    if (*first1 < *first2) return true;
    if (*first2 < *first1) return false;
}
return (first1 == last1) && (first2 != last2);\<close>
\<close>

partial_function (option) std_lexicographical_compare ::
  "('a::ord) memory \<Rightarrow> iter \<Rightarrow> iter \<Rightarrow> iter \<Rightarrow> iter \<Rightarrow> bool access option" where
  "std_lexicographical_compare s first1 last1 first2 last2 =
     (if iter_neq first1 last1 \<and> iter_neq first2 last2 then
        (case iter_deref s first1 of
           Value x \<Rightarrow>
             (case iter_deref s first2 of
                Value y \<Rightarrow>
                  (if x < y then Some (Value True)
                   else if y < x then Some (Value False)
                   else
                     (case iter_inc s first1 of
                        Value n1 \<Rightarrow>
                          (case iter_inc s first2 of
                             Value n2 \<Rightarrow> std_lexicographical_compare s n1 last1 n2 last2
                           | AssertFailed \<Rightarrow> Some AssertFailed
                           | BadAccess \<Rightarrow> Some BadAccess)
                      | AssertFailed \<Rightarrow> Some AssertFailed
                      | BadAccess \<Rightarrow> Some BadAccess))
              | AssertFailed \<Rightarrow> Some AssertFailed
              | BadAccess \<Rightarrow> Some BadAccess)
         | AssertFailed \<Rightarrow> Some AssertFailed
         | BadAccess \<Rightarrow> Some BadAccess)
      else Some (Value (iter_eq first1 last1 \<and> iter_neq first2 last2)))"

definition operator_eq :: "addr \<Rightarrow> addr \<Rightarrow> 'a memory \<Rightarrow> bool access option" where
  "operator_eq lhs rhs s =
     (case const_begin lhs s of
        Value b1 \<Rightarrow>
          (case const_begin rhs s of
             Value b2 \<Rightarrow> std_equal s b1 const_end b2
           | AssertFailed \<Rightarrow> Some AssertFailed
           | BadAccess \<Rightarrow> Some BadAccess)
      | AssertFailed \<Rightarrow> Some AssertFailed
      | BadAccess \<Rightarrow> Some BadAccess)"

definition operator_less :: "addr \<Rightarrow> addr \<Rightarrow> ('a::ord) memory \<Rightarrow> bool access option" where
  "operator_less lhs rhs s =
     (case const_begin lhs s of
        Value b1 \<Rightarrow>
          (case const_begin rhs s of
             Value b2 \<Rightarrow> std_lexicographical_compare s b1 const_end b2 const_end
           | AssertFailed \<Rightarrow> Some AssertFailed
           | BadAccess \<Rightarrow> Some BadAccess)
      | AssertFailed \<Rightarrow> Some AssertFailed
      | BadAccess \<Rightarrow> Some BadAccess)"

definition operator_greater :: "addr \<Rightarrow> addr \<Rightarrow> ('a::ord) memory \<Rightarrow> bool access option" where
  "operator_greater lhs rhs s = operator_less rhs lhs s"

definition operator_neq :: "addr \<Rightarrow> addr \<Rightarrow> 'a memory \<Rightarrow> bool access option" where
  "operator_neq lhs rhs s =
     (case operator_eq lhs rhs s of
        None \<Rightarrow> None
      | Some (Value b) \<Rightarrow> Some (Value (\<not> b))
      | Some AssertFailed \<Rightarrow> Some AssertFailed
      | Some BadAccess \<Rightarrow> Some BadAccess)"

definition operator_le :: "addr \<Rightarrow> addr \<Rightarrow> ('a::ord) memory \<Rightarrow> bool access option" where
  "operator_le lhs rhs s =
     (case operator_less rhs lhs s of
        None \<Rightarrow> None
      | Some (Value b) \<Rightarrow> Some (Value (\<not> b))
      | Some AssertFailed \<Rightarrow> Some AssertFailed
      | Some BadAccess \<Rightarrow> Some BadAccess)"

definition operator_ge :: "addr \<Rightarrow> addr \<Rightarrow> ('a::ord) memory \<Rightarrow> bool access option" where
  "operator_ge lhs rhs s =
     (case operator_greater rhs lhs s of
        None \<Rightarrow> None
      | Some (Value b) \<Rightarrow> Some (Value (\<not> b))
      | Some AssertFailed \<Rightarrow> Some AssertFailed
      | Some BadAccess \<Rightarrow> Some BadAccess)"

subsection \<open>Traversal\<close>

text \<open>
  A caller's loop \<open>for (auto it = first; it != last; ++it) out.push_back(*it);\<close>,
  started with \<open>first = begin()\<close>, \<open>last = end()\<close> and an empty \<open>out\<close>.
\<close>

partial_function (option) traverse :: "'a memory \<Rightarrow> iter \<Rightarrow> iter \<Rightarrow> 'a list \<Rightarrow> 'a list access option" where
  "traverse s it lst out =
     (if iter_neq it lst then
        (case iter_deref s it of
           Value x \<Rightarrow>
             (case iter_inc s it of
                Value it1 \<Rightarrow> traverse s it1 lst (out @ [x])
              | AssertFailed \<Rightarrow> Some AssertFailed
              | BadAccess \<Rightarrow> Some BadAccess)
         | AssertFailed \<Rightarrow> Some AssertFailed
         | BadAccess \<Rightarrow> Some BadAccess)
      else Some (Value out))"

section \<open>Abstraction: the node chain of a list\<close>

text \<open>
  \<open>node_chain s p xs\<close>: following \<open>next_node\<close> from the pointer \<open>p\<close> visits exactly
  the live nodes at the addresses \<open>map fst xs\<close>, which hold the payloads
  \<open>map snd xs\<close>, and then reaches \<open>nullptr\<close>.
\<close>

fun node_chain :: "'a memory \<Rightarrow> addr option \<Rightarrow> (addr \<times> 'a) list \<Rightarrow> bool" where
  "node_chain s p [] = (p = None)"
| "node_chain s p (x # xs) =
     (p = Some (fst x) \<and>
      (case node s (fst x) of
         None \<Rightarrow> False
       | Some n \<Rightarrow> node_value n = snd x \<and> node_chain s (next_node n) xs))"

text \<open>
  \<open>is_list s this xs\<close>: a list object lives at \<open>this\<close>, the chain behind its sentinel
  is \<open>xs\<close>, and its size counter is the number of nodes of that chain.
\<close>

definition is_list :: "'a memory \<Rightarrow> addr \<Rightarrow> (addr \<times> 'a) list \<Rightarrow> bool" where
  "is_list s this xs =
     (case node s this of
        None \<Rightarrow> False
      | Some h \<Rightarrow>
         node_chain s (next_node h) xs \<and>
         (case list_size s this of None \<Rightarrow> False | Some n \<Rightarrow> unat n = length xs))"

text \<open>The positions an iterator into the list may hold: the sentinel or a node of the chain.\<close>

definition valid_pos :: "addr \<Rightarrow> (addr \<times> 'a) list \<Rightarrow> iter \<Rightarrow> bool" where
  "valid_pos this xs pos = (case pos of None \<Rightarrow> False | Some p \<Rightarrow> p = this \<or> p \<in> set (map fst xs))"

text \<open>The memory before any object exists.\<close>

definition empty_memory :: "'a memory" where
  "empty_memory = \<lparr>node = Map.empty, list_size = Map.empty, deleted = []\<rparr>"

text \<open>
  \<open>unchanged_except A s t\<close>: going from \<open>s\<close> to \<open>t\<close>, only nodes and size counters at
  addresses in \<open>A\<close> were written, created or released.
\<close>

definition unchanged_except :: "addr set \<Rightarrow> 'a memory \<Rightarrow> 'a memory \<Rightarrow> bool" where
  "unchanged_except A s t =
     ((\<forall>a. a \<notin> A \<longrightarrow> node t a = node s a) \<and> (\<forall>a. a \<notin> A \<longrightarrow> list_size t a = list_size s a))"

subsection \<open>Positions and mutations\<close>

text \<open>
  \<open>on_list s this p\<close>: \<open>p\<close> is a position of the list \<open>this\<close>, that is its sentinel or a
  node reached from it along \<open>next_node\<close>.
\<close>

inductive on_list :: "'a memory \<Rightarrow> addr \<Rightarrow> addr \<Rightarrow> bool" for s :: "'a memory" and this :: addr where
  sentinel: "on_list s this this"
| successor: "on_list s this p \<Longrightarrow> node s p = Some n \<Longrightarrow> next_node n = Some q \<Longrightarrow> on_list s this q"

text \<open>The memory an operation leaves behind, whether it returns or throws.\<close>

fun result_state :: "('r, 's) outcome \<Rightarrow> 's option" where
  "result_state (Returns r t) = Some t"
| "result_state (Throws e t) = Some t"
| "result_state Aborts = None"
| "result_state Undefined = None"

text \<open>A \<open>new\<close> expression that succeeds yields storage that holds no live node.\<close>

fun fresh_alloc :: "'a memory \<Rightarrow> alloc \<Rightarrow> bool" where
  "fresh_alloc s (At a) = (node s a = None)"
| "fresh_alloc s (Fails e) = True"

text \<open>
  One call of a mutator on the list \<open>this\<close> within its contract (positions are positions
  of \<open>this\<close>), leading from memory \<open>s\<close> to memory \<open>t\<close>.
\<close>

inductive mutation :: "addr \<Rightarrow> 'a memory \<Rightarrow> 'a memory \<Rightarrow> bool" for this :: addr where
  push_front: "fresh_alloc s al \<Longrightarrow> result_state (PushFront al v this s) = Some t \<Longrightarrow> mutation this s t"
| pop_front: "result_state (PopFront this s) = Some t \<Longrightarrow> mutation this s t"
| insert_after:
    "on_list s this p \<Longrightarrow> fresh_alloc s al \<Longrightarrow>
     result_state (InsertAfter al (Some p) v this s) = Some t \<Longrightarrow> mutation this s t"
| erase_after: "on_list s this p \<Longrightarrow> result_state (EraseAfter (Some p) this s) = Some t \<Longrightarrow> mutation this s t"
| clear: "Clear this s = Some r \<Longrightarrow> result_state r = Some t \<Longrightarrow> mutation this s t"

subsection \<open>Reachable memories and their invariant\<close>

text \<open>The addresses at which the \<open>new\<close> expressions described by \<open>als\<close> obtain storage.\<close>

fun allocated :: "alloc list \<Rightarrow> addr list" where
  "allocated [] = []"
| "allocated (At a # als) = a # allocated als"
| "allocated (Fails e # als) = allocated als"

text \<open>
  \<open>free_storage s as\<close>: \<open>as\<close> are distinct addresses at which no node and no list object
  lives in \<open>s\<close>; storage for a new object or handed out by \<open>new\<close> is of this kind.
\<close>

definition free_storage :: "'a memory \<Rightarrow> addr list \<Rightarrow> bool" where
  "free_storage s as = (distinct as \<and> (\<forall>a\<in>set as. node s a = None \<and> list_size s a = None))"

text \<open>
  \<open>wf_by c s\<close>: every list object of \<open>s\<close> is a well-formed list whose chain is \<open>c l\<close>, the
  chains of different lists share no node, and no sentinel is a node of a chain.
\<close>

definition wf_by :: "(addr \<Rightarrow> (addr \<times> 'a) list) \<Rightarrow> 'a memory \<Rightarrow> bool" where
  "wf_by c s =
     ((\<forall>l\<in>dom (list_size s). is_list s l (c l)) \<and>
      (\<forall>l\<in>dom (list_size s). \<forall>k\<in>dom (list_size s).
          l \<noteq> k \<longrightarrow> set (map fst (c l)) \<inter> set (map fst (c k)) = {}) \<and>
      (\<forall>l\<in>dom (list_size s). set (map fst (c l)) \<inter> dom (list_size s) = {}))"

definition wf :: "'a memory \<Rightarrow> bool" where
  "wf s = (\<exists>c. wf_by c s)"

text \<open>
  The memories a program can get to: it starts without objects and then constructs
  lists in free storage, calls the mutators within their contract, swaps, assigns and
  destroys lists. A call may return or throw; every \<open>new\<close> that succeeds yields free storage.
\<close>

inductive reachable :: "'a memory \<Rightarrow> bool" where
  start: "reachable empty_memory"
| default_constructor:
    "reachable s \<Longrightarrow> free_storage s [this] \<Longrightarrow>
     SingleLinkedList_default dflt this s = Returns () t \<Longrightarrow> reachable t"
| init_constructor:
    "reachable s \<Longrightarrow> free_storage s (this # allocated als) \<Longrightarrow>
     result_state (SingleLinkedList_init dflt als vs this s) = Some t \<Longrightarrow> reachable t"
| copy_constructor:
    "reachable s \<Longrightarrow> other \<in> dom (list_size s) \<Longrightarrow>
     free_storage s (this # temp # allocated als) \<Longrightarrow>
     SingleLinkedList_copy dflt als temp other this s = Some r \<Longrightarrow> result_state r = Some t \<Longrightarrow>
     reachable t"
| copy_assignment:
    "reachable s \<Longrightarrow> this \<in> dom (list_size s) \<Longrightarrow> rhs \<in> dom (list_size s) \<Longrightarrow>
     free_storage s (temp # temp2 # allocated als) \<Longrightarrow>
     operator_assign dflt als temp temp2 rhs this s = Some r \<Longrightarrow> result_state r = Some t \<Longrightarrow>
     reachable t"
| mutator:
    "reachable s \<Longrightarrow> this \<in> dom (list_size s) \<Longrightarrow> mutation this s t \<Longrightarrow> reachable t"
| swap:
    "reachable s \<Longrightarrow> this \<in> dom (list_size s) \<Longrightarrow> other \<in> dom (list_size s) \<Longrightarrow>
     swap_lists this other s = Returns () t \<Longrightarrow> reachable t"
| destructor:
    "reachable s \<Longrightarrow> this \<in> dom (list_size s) \<Longrightarrow>
     destructor this s = Some r \<Longrightarrow> result_state r = Some t \<Longrightarrow> reachable t"

subsection \<open>Example memories\<close>

text \<open>An empty list at address 1, and the list \<open>{5}\<close> at address 1 with its node at 2.\<close>

definition no_elem :: "int memory" where
  "no_elem =
     \<lparr>node = [1 \<mapsto> \<lparr>node_value = 0, next_node = None\<rparr>],
      list_size = [1 \<mapsto> 0], deleted = []\<rparr>"

definition one_elem :: "int memory" where
  "one_elem =
     \<lparr>node = [1 \<mapsto> \<lparr>node_value = 0, next_node = Some 2\<rparr>,
              2 \<mapsto> \<lparr>node_value = 5, next_node = None\<rparr>],
      list_size = [1 \<mapsto> 1], deleted = []\<rparr>"

text \<open>
  The lists \<open>{1, 2}\<close> at address 1 and \<open>{1, 2, 3}\<close> at address 2, and the list
  \<open>{3, 14, 15, 92, 6}\<close> at address 1.
\<close>

definition lists_12_123 :: "int memory" where
  "lists_12_123 =
     \<lparr>node = [1 \<mapsto> \<lparr>node_value = 0, next_node = Some 11\<rparr>,
              11 \<mapsto> \<lparr>node_value = 1, next_node = Some 12\<rparr>,
              12 \<mapsto> \<lparr>node_value = 2, next_node = None\<rparr>,
              2 \<mapsto> \<lparr>node_value = 0, next_node = Some 21\<rparr>,
              21 \<mapsto> \<lparr>node_value = 1, next_node = Some 22\<rparr>,
              22 \<mapsto> \<lparr>node_value = 2, next_node = Some 23\<rparr>,
              23 \<mapsto> \<lparr>node_value = 3, next_node = None\<rparr>],
      list_size = [1 \<mapsto> 2, 2 \<mapsto> 3], deleted = []\<rparr>"

definition five_elems :: "int memory" where
  "five_elems =
     \<lparr>node = [1 \<mapsto> \<lparr>node_value = 0, next_node = Some 11\<rparr>,
              11 \<mapsto> \<lparr>node_value = 3, next_node = Some 12\<rparr>,
              12 \<mapsto> \<lparr>node_value = 14, next_node = Some 13\<rparr>,
              13 \<mapsto> \<lparr>node_value = 15, next_node = Some 14\<rparr>,
              14 \<mapsto> \<lparr>node_value = 92, next_node = Some 15\<rparr>,
              15 \<mapsto> \<lparr>node_value = 6, next_node = None\<rparr>],
      list_size = [1 \<mapsto> 5], deleted = []\<rparr>"

section \<open>Lemmas\<close>

lemma node_chain_live:
  "node_chain s p xs \<Longrightarrow> a \<in> set (map fst xs) \<Longrightarrow> node s a \<noteq> None"
  by (induction xs arbitrary: p) (auto split: option.splits)

lemma is_list_iff:
  "is_list s this xs \<longleftrightarrow>
     (\<exists>h n. node s this = Some h \<and> node_chain s (next_node h) xs \<and>
            list_size s this = Some n \<and> unat n = length xs)"
  by (auto simp: is_list_def split: option.splits)

lemma valid_pos_live:
  assumes "is_list s this xs" and "valid_pos this xs (Some p)"
  shows "node s p \<noteq> None"
proof (cases "p = this")
  case True
  with assms(1) show ?thesis by (auto simp: is_list_def split: option.splits)
next
  case False
  with assms(2) have "p \<in> set (map fst xs)" by (simp add: valid_pos_def)
  moreover from assms(1) obtain h :: "'a Node" where "node_chain s (next_node h) xs"
    by (auto simp: is_list_iff)
  ultimately show ?thesis by (rule node_chain_live [rotated])
qed

subsection \<open>Chains\<close>

lemma node_chain_Cons [simp]:
  "node_chain s p (x # xs) \<longleftrightarrow>
     (\<exists>n. p = Some (fst x) \<and> node s (fst x) = Some n \<and> node_value n = snd x \<and>
          node_chain s (next_node n) xs)"
  by (auto split: option.splits)

declare node_chain.simps(2) [simp del]

lemma node_chain_frame:
  "node_chain s p xs \<Longrightarrow> \<forall>a \<in> set (map fst xs). node t a = node s a \<Longrightarrow> node_chain t p xs"
  by (induction xs arbitrary: p) (auto split: option.splits)

lemma node_chain_unique:
  "node_chain s p xs \<Longrightarrow> node_chain s p ys \<Longrightarrow> xs = ys"
proof (induction xs arbitrary: p ys)
  case Nil
  then show ?case by (cases ys) auto
next
  case (Cons x xs)
  then show ?case by (cases ys) (auto simp: prod_eq_iff)
qed

lemma node_chain_suffix:
  "node_chain s p (xs @ (a, v) # ys) \<Longrightarrow> node_chain s (Some a) ((a, v) # ys)"
proof (induction xs arbitrary: p)
  case Nil
  then show ?case by simp
next
  case (Cons y xs)
  from Cons.prems obtain n :: "'a Node" where "node_chain s (next_node n) (xs @ (a, v) # ys)"
    by auto
  then show ?case by (rule Cons.IH)
qed

lemma node_chain_head_fresh:
  assumes "node_chain s (Some a) ((a, v) # xs)"
  shows "a \<notin> set (map fst xs)"
proof
  assume "a \<in> set (map fst xs)"
  then obtain pre w post where xs: "xs = pre @ (a, w) # post"
    by (auto simp: in_set_conv_decomp)
  from assms have "node_chain s (Some a) (((a, v) # pre) @ (a, w) # post)"
    by (simp add: xs)
  then have "node_chain s (Some a) ((a, w) # post)"
    by (rule node_chain_suffix)
  with assms have "(a, v) # xs = (a, w) # post"
    by (rule node_chain_unique)
  with xs show False by simp
qed

lemma node_chain_distinct:
  "node_chain s p xs \<Longrightarrow> distinct (map fst xs)"
proof (induction xs arbitrary: p)
  case Nil
  then show ?case by simp
next
  case (Cons x xs)
  then have "node_chain s (Some (fst x)) ((fst x, snd x) # xs)" by simp
  then have "fst x \<notin> set (map fst xs)" by (rule node_chain_head_fresh)
  moreover from Cons have "distinct (map fst xs)" by auto
  ultimately show ?case by simp
qed

lemma sentinel_not_in_chain:
  assumes "node s this = Some h" and "node_chain s (next_node h) xs"
  shows "this \<notin> set (map fst xs)"
proof
  assume "this \<in> set (map fst xs)"
  then obtain pre w post where xs: "xs = pre @ (this, w) # post"
    by (auto simp: in_set_conv_decomp)
  with assms(2) have "node_chain s (next_node h) (pre @ (this, w) # post)" by simp
  then have "node_chain s (Some this) ((this, w) # post)"
    by (rule node_chain_suffix)
  with assms(1) have "node_chain s (next_node h) post" by simp
  with assms(2) have "xs = post" by (rule node_chain_unique)
  with xs show False by simp
qed

lemma distinct_word_length:
  fixes ws :: "addr list"
  assumes "distinct ws"
  shows "length ws \<le> 2 ^ 64"
proof -
  have "length ws = card (set ws)" using assms by (simp add: distinct_card)
  also have "\<dots> \<le> card (UNIV :: addr set)" by (rule card_mono) auto
  also have "\<dots> = 2 ^ 64" by (simp add: card_word)
  finally show ?thesis .
qed

lemma chain_length_bound:
  assumes "node s this = Some h" and "node_chain s (next_node h) xs"
  shows "length xs < 2 ^ 64"
proof -
  have "this \<notin> set (map fst xs)" using assms by (rule sentinel_not_in_chain)
  moreover have "distinct (map fst xs)" using assms(2) by (rule node_chain_distinct)
  ultimately have "distinct (this # map fst xs)" by simp
  then have "length (this # map fst xs) \<le> 2 ^ 64" by (rule distinct_word_length)
  then show ?thesis by simp
qed

lemma size_inc:
  fixes n :: size_t
  assumes "unat n = k" and "Suc k < 2 ^ 64"
  shows "unat (n + 1) = Suc k"
  using assms by (simp add: unat_word_ariths)

lemma size_dec:
  fixes n :: size_t
  assumes "unat n = Suc k"
  shows "unat (n - 1) = k"
  using assms by (metis One_nat_def diff_Suc_1 unat_minus_one unat_eq_zero nat.distinct(1) unat_0)

subsection \<open>Loops over a chain\<close>

lemma traverse_chain:
  "node_chain s p xs \<Longrightarrow> traverse s p None out = Some (Value (out @ map snd xs))"
proof (induction xs arbitrary: p out)
  case Nil
  then show ?case by (subst traverse.simps) (simp add: iter_neq_def)
next
  case (Cons x xs)
  then obtain n where n: "p = Some (fst x)" "node s (fst x) = Some n" "node_value n = snd x"
    "node_chain s (next_node n) xs" by auto
  from Cons.IH [OF n(4)] have "traverse s (next_node n) None (out @ [snd x]) = Some (Value (out @ map snd (x # xs)))"
    by simp
  with n show ?case
    by (subst traverse.simps) (simp add: iter_neq_def iter_deref_def iter_inc_def)
qed

lemma std_equal_chain:
  "node_chain s p xs \<Longrightarrow> node_chain s q ys \<Longrightarrow> length xs \<le> length ys \<Longrightarrow>
   std_equal s p None q = Some (Value (map snd xs = take (length xs) (map snd ys)))"
proof (induction xs arbitrary: p q ys)
  case Nil
  then show ?case by (subst std_equal.simps) (simp add: iter_neq_def)
next
  case (Cons x xs)
  from Cons.prems(3) obtain y ys' where ys: "ys = y # ys'" by (cases ys) auto
  from Cons.prems(1) obtain n where n: "p = Some (fst x)" "node s (fst x) = Some n" "node_value n = snd x"
    "node_chain s (next_node n) xs" by auto
  from Cons.prems(2) ys obtain m where m: "q = Some (fst y)" "node s (fst y) = Some m" "node_value m = snd y"
    "node_chain s (next_node m) ys'" by auto
  from Cons.prems(3) ys have "length xs \<le> length ys'" by simp
  from Cons.IH [OF n(4) m(4) this]
  have "std_equal s (next_node n) None (next_node m) = Some (Value (map snd xs = take (length xs) (map snd ys')))" .
  with n m ys show ?case
    by (subst std_equal.simps) (simp add: iter_neq_def iter_deref_def iter_inc_def)
qed

lemma std_lexicographical_compare_chain:
  "node_chain s p xs \<Longrightarrow> node_chain s q ys \<Longrightarrow>
   std_lexicographical_compare s p None q None = Some (Value (ord_class.lexordp (map snd xs) (map snd ys)))"
proof (induction xs arbitrary: p q ys)
  case Nil
  then show ?case
    by (subst std_lexicographical_compare.simps) (cases ys; simp add: iter_neq_def iter_eq_def)
next
  case (Cons x xs)
  from Cons.prems(1) obtain n where n: "p = Some (fst x)" "node s (fst x) = Some n" "node_value n = snd x"
    "node_chain s (next_node n) xs" by auto
  show ?case
  proof (cases ys)
    case Nil
    with Cons.prems(2) n show ?thesis
      by (subst std_lexicographical_compare.simps) (simp add: iter_neq_def iter_eq_def)
  next
    case (Cons y ys')
    with Cons.prems(2) obtain m where m: "q = Some (fst y)" "node s (fst y) = Some m" "node_value m = snd y"
      "node_chain s (next_node m) ys'" by auto
    from Cons.IH [OF n(4) m(4)]
    have "std_lexicographical_compare s (next_node n) None (next_node m) None =
            Some (Value (ord_class.lexordp (map snd xs) (map snd ys')))" .
    with n m Cons show ?thesis
      by (subst std_lexicographical_compare.simps) (simp add: iter_neq_def iter_deref_def iter_inc_def)
  qed
qed

subsection \<open>Writes into a chain\<close>

lemma node_chain_live_addr:
  "node_chain s p xs \<Longrightarrow> node s a = None \<Longrightarrow> a \<notin> set (map fst xs)"
  using node_chain_live by fastforce

lemma node_chain_frame_except:
  assumes "node_chain s p xs" and "unchanged_except A s t" and "set (map fst xs) \<inter> A = {}"
  shows "node_chain t p xs"
  using assms(1)
proof (rule node_chain_frame)
  show "\<forall>a\<in>set (map fst xs). node t a = node s a"
    using assms(2,3) by (auto simp: unchanged_except_def)
qed

lemma is_list_frame:
  assumes "is_list s l xs" and "unchanged_except A s t" and "l \<notin> A" and "set (map fst xs) \<inter> A = {}"
  shows "is_list t l xs"
proof -
  from assms(1) obtain h n where h: "node s l = Some h" "node_chain s (next_node h) xs"
    "list_size s l = Some n" "unat n = length xs" by (auto simp: is_list_iff)
  from assms(2,3) have "node t l = node s l" "list_size t l = list_size s l"
    by (auto simp: unchanged_except_def)
  moreover from h(2) assms(2,4) have "node_chain t (next_node h) xs" by (rule node_chain_frame_except)
  ultimately show ?thesis using h by (auto simp: is_list_iff)
qed

lemma node_chain_insert:
  assumes "node_chain s q (pre @ (p, w) # post)" and "node s a = None" and "node s p = Some pn"
    and "node t = (node s)(a \<mapsto> \<lparr>node_value = v, next_node = next_node pn\<rparr>, p \<mapsto> pn\<lparr>next_node := Some a\<rparr>)"
  shows "node_chain t q (pre @ (p, w) # (a, v) # post)"
proof -
  have d: "distinct (map fst (pre @ (p, w) # post))" using assms(1) by (rule node_chain_distinct)
  have a: "a \<notin> set (map fst (pre @ (p, w) # post))" using assms(1,2) by (rule node_chain_live_addr)
  show ?thesis using assms(1) d a
  proof (induction pre arbitrary: q)
    case Nil
    then have post: "node_chain s (next_node pn) post" and pw: "node_value pn = w" and q: "q = Some p"
      using assms(3) by auto
    have "node_chain t (next_node pn) post" using post
    proof (rule node_chain_frame)
      show "\<forall>b\<in>set (map fst post). node t b = node s b" using Nil assms(4) by auto
    qed
    with pw q Nil show ?case by (simp add: assms(4))
  next
    case (Cons x pre)
    then obtain n where n: "q = Some (fst x)" "node s (fst x) = Some n" "node_value n = snd x"
      "node_chain s (next_node n) (pre @ (p, w) # post)" by auto
    from Cons.prems have "fst x \<noteq> p" "fst x \<noteq> a" by auto
    then have "node t (fst x) = Some n" using n(2) by (simp add: assms(4))
    moreover have "node_chain t (next_node n) (pre @ (p, w) # (a, v) # post)"
      using n(4) Cons.prems by (intro Cons.IH) auto
    ultimately show ?case using n by simp
  qed
qed

lemma node_chain_erase:
  assumes "node_chain s q (pre @ (p, w) # (d, u) # post)" and "node s p = Some pn" and "node s d = Some dn"
    and "node t = (node s)(p \<mapsto> pn\<lparr>next_node := next_node dn\<rparr>, d := None)"
  shows "node_chain t q (pre @ (p, w) # post)"
proof -
  have dist: "distinct (map fst (pre @ (p, w) # (d, u) # post))" using assms(1) by (rule node_chain_distinct)
  show ?thesis using assms(1) dist
  proof (induction pre arbitrary: q)
    case Nil
    then have post: "node_chain s (next_node dn) post" and pw: "node_value pn = w" and q: "q = Some p"
      using assms(2,3) by auto
    have "node_chain t (next_node dn) post" using post
    proof (rule node_chain_frame)
      show "\<forall>b\<in>set (map fst post). node t b = node s b" using Nil assms(4) by auto
    qed
    moreover from Nil have "p \<noteq> d" by auto
    ultimately show ?case using pw q by (simp add: assms(4))
  next
    case (Cons x pre)
    then obtain n where n: "q = Some (fst x)" "node s (fst x) = Some n" "node_value n = snd x"
      "node_chain s (next_node n) (pre @ (p, w) # (d, u) # post)" by auto
    from Cons.prems have "fst x \<noteq> p" "fst x \<noteq> d" by auto
    then have "node t (fst x) = Some n" using n(2) by (simp add: assms(4))
    moreover have "node_chain t (next_node n) (pre @ (p, w) # post)"
      using n(4) Cons.prems by (intro Cons.IH) auto
    ultimately show ?case using n by simp
  qed
qed

text \<open>The sentinel followed by the chain is itself a chain, from the sentinel's address.\<close>

lemma is_list_sentinel_chain:
  "is_list s this xs \<longleftrightarrow>
     (\<exists>h n. node s this = Some h \<and> node_chain s (Some this) ((this, node_value h) # xs) \<and>
            list_size s this = Some n \<and> unat n = length xs)"
  by (auto simp: is_list_iff)

subsection \<open>The mutators on a well-formed list\<close>

lemma sentinel_chain_hd:
  assumes "node_chain t (Some this) ys" and "ys \<noteq> []" and "list_size t this = Some n" and "unat n = length (tl ys)"
  shows "is_list t this (tl ys)"
proof -
  from assms(2) obtain y ys' where ys: "ys = y # ys'" by (cases ys) auto
  with assms(1) obtain h where "node t this = Some h" "node_chain t (next_node h) ys'" by auto
  with assms(3,4) ys show ?thesis by (auto simp: is_list_iff)
qed

lemma sentinel_chain_bound:
  assumes "node_chain t (Some this) ys" and "ys \<noteq> []"
  shows "length ys \<le> 2 ^ 64"
proof -
  have "distinct (map fst ys)" using assms(1) by (rule node_chain_distinct)
  then have "length (map fst ys) \<le> 2 ^ 64" by (rule distinct_word_length)
  then show ?thesis by simp
qed

lemma InsertAfter_spec:
  assumes "is_list s this xs" and "node s this = Some h"
    and "(this, node_value h) # xs = pre @ (p, w) # post" and "node s a = None"
  shows "\<exists>t. InsertAfter (At a) (Some p) v this s = Returns (Some a) t \<and>
             is_list t this (tl (pre @ (p, w) # (a, v) # post)) \<and>
             unchanged_except {this, p, a} s t \<and>
             dom (list_size t) = dom (list_size s) \<and> deleted t = deleted s"
proof -
  from assms(1,2) obtain n where ch: "node_chain s (Some this) ((this, node_value h) # xs)"
    and n: "list_size s this = Some n" "unat n = length xs" by (auto simp: is_list_iff)
  from ch assms(3) have ch': "node_chain s (Some this) (pre @ (p, w) # post)" by simp
  then have "p \<in> set (map fst (pre @ (p, w) # post))" by simp
  with ch' have "node s p \<noteq> None" by (rule node_chain_live)
  then obtain pn where pn: "node s p = Some pn" by auto
  from pn assms(4) have ap: "a \<noteq> p" by auto
  define t where "t = s\<lparr>node := (node s)(a \<mapsto> \<lparr>node_value = v, next_node = next_node pn\<rparr>,
                                          p \<mapsto> pn\<lparr>next_node := Some a\<rparr>),
                        list_size := (list_size s)(this \<mapsto> n + 1)\<rparr>"
  have nt: "node t = (node s)(a \<mapsto> \<lparr>node_value = v, next_node = next_node pn\<rparr>, p \<mapsto> pn\<lparr>next_node := Some a\<rparr>)"
    by (simp add: t_def)
  have run: "InsertAfter (At a) (Some p) v this s = Returns (Some a) t"
    using pn n ap by (simp add: InsertAfter_def new_Node_def t_def)
  from ch' assms(4) pn nt have cht: "node_chain t (Some this) (pre @ (p, w) # (a, v) # post)"
    by (rule node_chain_insert)
  then have "length (pre @ (p, w) # (a, v) # post) \<le> 2 ^ 64" by (rule sentinel_chain_bound) simp
  moreover from assms(3) have "length xs = length pre + length post" 
    by (metis add_Suc_right length_Cons length_append nat.inject)
  ultimately have "Suc (length xs) < 2 ^ 64" by simp
  with n(2) have "unat (n + 1) = Suc (length xs)" by (rule size_inc)
  moreover have "length (tl (pre @ (p, w) # (a, v) # post)) = Suc (length xs)"
    using \<open>length xs = length pre + length post\<close> by simp
  ultimately have "unat (n + 1) = length (tl (pre @ (p, w) # (a, v) # post))" by simp
  moreover have "list_size t this = Some (n + 1)" by (simp add: t_def)
  ultimately have "is_list t this (tl (pre @ (p, w) # (a, v) # post))"
    using cht by (intro sentinel_chain_hd) auto
  moreover have "unchanged_except {this, p, a} s t" by (simp add: unchanged_except_def t_def)
  moreover have "dom (list_size t) = dom (list_size s)" using n(1) by (auto simp: t_def)
  moreover have "deleted t = deleted s" by (simp add: t_def)
  ultimately show ?thesis using run by blast
qed

lemma PushFront_as_InsertAfter:
  assumes "node s this = Some h" and "node s a = None"
  shows "PushFront (At a) v this s =
           (case InsertAfter (At a) (Some this) v this s of
              Returns r t \<Rightarrow> Returns () t | Throws e t \<Rightarrow> Throws e t
            | Aborts \<Rightarrow> Aborts | Undefined \<Rightarrow> Undefined)"
proof -
  from assms have "a \<noteq> this" by auto
  with assms show ?thesis
    by (auto simp: PushFront_def InsertAfter_def new_Node_def split: option.splits)
qed

lemma PushFront_spec:
  assumes "is_list s this xs" and "node s a = None"
  shows "\<exists>t. PushFront (At a) v this s = Returns () t \<and> is_list t this ((a, v) # xs) \<and>
             unchanged_except {this, a} s t \<and>
             dom (list_size t) = dom (list_size s) \<and> deleted t = deleted s"
proof -
  from assms(1) obtain h where h: "node s this = Some h" by (auto simp: is_list_iff)
  have "(this, node_value h) # xs = [] @ (this, node_value h) # xs" by simp
  from InsertAfter_spec [OF assms(1) h this assms(2), of v]
  obtain t where "InsertAfter (At a) (Some this) v this s = Returns (Some a) t"
    "is_list t this ((a, v) # xs)" "unchanged_except {this, a} s t"
    "dom (list_size t) = dom (list_size s)" "deleted t = deleted s" by auto
  then show ?thesis using PushFront_as_InsertAfter [OF h assms(2), of v] by simp
qed

lemma node_chain_first:
  "node_chain s q post \<Longrightarrow> q = (case post of [] \<Rightarrow> list_end | y # ys \<Rightarrow> Some (fst y))"
  by (cases post) (auto simp: list_end_def)

lemma EraseAfter_spec:
  assumes "is_list s this xs" and "node s this = Some h"
    and "(this, node_value h) # xs = pre @ (p, w) # (d, u) # post"
  shows "\<exists>t. EraseAfter (Some p) this s =
               Returns (case post of [] \<Rightarrow> list_end | y # ys \<Rightarrow> Some (fst y)) t \<and>
             is_list t this (tl (pre @ (p, w) # post)) \<and>
             node t d = None \<and> deleted t = deleted s @ [u] \<and>
             unchanged_except {this, p, d} s t \<and>
             dom (list_size t) = dom (list_size s)"
proof -
  from assms(1,2) obtain n where ch: "node_chain s (Some this) ((this, node_value h) # xs)"
    and n: "list_size s this = Some n" "unat n = length xs" by (auto simp: is_list_iff)
  from ch assms(3) have ch': "node_chain s (Some this) (pre @ (p, w) # (d, u) # post)" by simp
  then have "node_chain s (Some p) ((p, w) # (d, u) # post)" by (rule node_chain_suffix)
  then obtain pn dn where pn: "node s p = Some pn" "next_node pn = Some d"
    and dn: "node s d = Some dn" "node_value dn = u" "node_chain s (next_node dn) post"
    by auto
  have "distinct (map fst (pre @ (p, w) # (d, u) # post))" using ch' by (rule node_chain_distinct)
  then have pd: "p \<noteq> d" by auto
  define t where "t = s\<lparr>node := (node s)(p \<mapsto> pn\<lparr>next_node := next_node dn\<rparr>, d := None),
                        deleted := deleted s @ [u],
                        list_size := (list_size s)(this \<mapsto> n - 1)\<rparr>"
  have nt: "node t = (node s)(p \<mapsto> pn\<lparr>next_node := next_node dn\<rparr>, d := None)"
    by (simp add: t_def)
  have "next_node dn = (case post of [] \<Rightarrow> list_end | y # ys \<Rightarrow> Some (fst y))"
    using dn(3) by (rule node_chain_first)
  then have run: "EraseAfter (Some p) this s =
      Returns (case post of [] \<Rightarrow> list_end | y # ys \<Rightarrow> Some (fst y)) t"
    using pn dn(1,2) n pd by (simp add: EraseAfter_def delete_Node_def t_def)
  from ch' pn(1) dn(1) nt have cht: "node_chain t (Some this) (pre @ (p, w) # post)"
    by (rule node_chain_erase)
  from assms(3) have len: "length xs = Suc (length pre + length post)"
    by (metis add_Suc_right length_Cons length_append nat.inject)
  with n(2) have "unat (n - 1) = length pre + length post" by (intro size_dec) simp
  then have "unat (n - 1) = length (tl (pre @ (p, w) # post))" by simp
  moreover have "list_size t this = Some (n - 1)" by (simp add: t_def)
  ultimately have "is_list t this (tl (pre @ (p, w) # post))"
    using cht by (intro sentinel_chain_hd) auto
  moreover have "unchanged_except {this, p, d} s t" by (simp add: unchanged_except_def t_def)
  moreover have "dom (list_size t) = dom (list_size s)" using n(1) by (auto simp: t_def)
  moreover have "deleted t = deleted s @ [u]" "node t d = None" by (simp_all add: t_def)
  ultimately show ?thesis using run by blast
qed

lemma EraseAfter_last:
  assumes "is_list s this xs" and "node s this = Some h"
    and "(this, node_value h) # xs = pre @ [(p, w)]"
  shows "EraseAfter (Some p) this s = Returns list_end s"
proof -
  from assms(1,2) have "node_chain s (Some this) ((this, node_value h) # xs)"
    by (auto simp: is_list_iff)
  with assms(3) have "node_chain s (Some this) (pre @ (p, w) # [])" by simp
  then have "node_chain s (Some p) ((p, w) # [])" by (rule node_chain_suffix)
  then obtain pn where "node s p = Some pn" "next_node pn = None" by auto
  then show ?thesis by (simp add: EraseAfter_def list_end_def)
qed

lemma PopFront_spec:
  assumes "is_list s this ((d, u) # post)"
  shows "\<exists>t. PopFront this s = Returns () t \<and> is_list t this post \<and>
             node t d = None \<and> deleted t = deleted s @ [u] \<and>
             unchanged_except {this, d} s t \<and>
             dom (list_size t) = dom (list_size s)"
proof -
  from assms obtain h n dn where h: "node s this = Some h" "next_node h = Some d" "node s d = Some dn"
    and n: "list_size s this = Some n" "unat n = Suc (length post)"
    by (auto simp: is_list_iff)
  have "(this, node_value h) # (d, u) # post = [] @ (this, node_value h) # (d, u) # post" by simp
  from EraseAfter_spec [OF assms h(1) this]
  obtain t where t: "EraseAfter (Some this) this s = Returns (case post of [] \<Rightarrow> list_end | y # ys \<Rightarrow> Some (fst y)) t"
    "is_list t this post" "node t d = None" "deleted t = deleted s @ [u]"
    "unchanged_except {this, d} s t" "dom (list_size t) = dom (list_size s)" by auto
  from n have "n \<noteq> 0" by auto
  with t(1) h n(1) have "PopFront this s = Returns () t"
    by (auto simp: PopFront_def EraseAfter_def IsEmpty_def delete_Node_def split: option.splits)
  with t show ?thesis by blast
qed

lemma unchanged_except_trans:
  assumes "unchanged_except A s t" and "unchanged_except B t u" and "A \<subseteq> C" and "B \<subseteq> C"
  shows "unchanged_except C s u"
  using assms unfolding unchanged_except_def by (metis subsetD)

lemma unchanged_except_mono:
  "unchanged_except A s t \<Longrightarrow> A \<subseteq> C \<Longrightarrow> unchanged_except C s t"
  unfolding unchanged_except_def by blast

lemma unchanged_except_refl: "unchanged_except A s s"
  by (simp add: unchanged_except_def)

lemma is_list_unique:
  "is_list s this xs \<Longrightarrow> is_list s this ys \<Longrightarrow> xs = ys"
  by (auto simp: is_list_iff dest: node_chain_unique)

lemma is_list_not_sentinel:
  "is_list s this xs \<Longrightarrow> this \<notin> set (map fst xs)"
  unfolding is_list_iff using sentinel_not_in_chain by blast

lemma is_list_live:
  "is_list s this xs \<Longrightarrow> a \<in> set (map fst xs) \<Longrightarrow> node s a \<noteq> None"
  unfolding is_list_iff using node_chain_live by blast

lemma swap_lists_spec:
  assumes "is_list s a xs" and "is_list s b ys" and "a \<notin> set (map fst ys)" and "b \<notin> set (map fst xs)"
  shows "\<exists>t. swap_lists a b s = Returns () t \<and> is_list t a ys \<and> is_list t b xs \<and>
             unchanged_except {a, b} s t \<and> dom (list_size t) = dom (list_size s) \<and>
             deleted t = deleted s"
proof -
  from assms(1) obtain h n where h: "node s a = Some h" "node_chain s (next_node h) xs"
    "list_size s a = Some n" "unat n = length xs" by (auto simp: is_list_iff)
  from assms(2) obtain k m where k: "node s b = Some k" "node_chain s (next_node k) ys"
    "list_size s b = Some m" "unat m = length ys" by (auto simp: is_list_iff)
  define t where "t = s\<lparr>node := (node s)(a \<mapsto> h\<lparr>next_node := next_node k\<rparr>, b \<mapsto> k\<lparr>next_node := next_node h\<rparr>),
                        list_size := (list_size s)(a \<mapsto> m, b \<mapsto> n)\<rparr>"
  have run: "swap_lists a b s = Returns () t"
    using h k by (simp add: swap_lists_def t_def)
  have xa: "a \<notin> set (map fst xs)" using assms(1) by (rule is_list_not_sentinel)
  have yb: "b \<notin> set (map fst ys)" using assms(2) by (rule is_list_not_sentinel)
  have cx: "node_chain t (next_node h) xs" using h(2)
  proof (rule node_chain_frame)
    show "\<forall>c\<in>set (map fst xs). node t c = node s c" using xa assms(4) by (auto simp: t_def)
  qed
  have cy: "node_chain t (next_node k) ys" using k(2)
  proof (rule node_chain_frame)
    show "\<forall>c\<in>set (map fst ys). node t c = node s c" using yb assms(3) by (auto simp: t_def)
  qed
  have "is_list t a ys \<and> is_list t b xs"
  proof (cases "a = b")
    case True
    with h k have "h = k" "n = m" by auto
    with True cx cy h k show ?thesis by (auto simp: is_list_iff t_def)
  next
    case False
    with cx cy h k show ?thesis by (auto simp: is_list_iff t_def)
  qed
  moreover have "unchanged_except {a, b} s t" by (simp add: unchanged_except_def t_def)
  moreover have "dom (list_size t) = dom (list_size s)" using h(3) k(3) by (auto simp: t_def)
  moreover have "deleted t = deleted s" by (simp add: t_def)
  ultimately show ?thesis using run by blast
qed

lemma Clear_loop_spec:
  assumes "node s this = Some h" and "node_chain s (next_node h) xs"
  shows "\<exists>t. Clear_loop this s = Some (Returns () t) \<and>
             node t this = Some (h\<lparr>next_node := None\<rparr>) \<and>
             (\<forall>a\<in>set (map fst xs). node t a = None) \<and>
             (\<forall>b. b \<notin> insert this (set (map fst xs)) \<longrightarrow> node t b = node s b) \<and>
             list_size t = list_size s \<and> deleted t = deleted s @ map snd xs"
  using assms
proof (induction xs arbitrary: s h)
  case Nil
  then have "Clear_loop this s = Some (Returns () s)"
    by (subst Clear_loop.simps) simp
  moreover from Nil have "h\<lparr>next_node := None\<rparr> = h" by simp
  ultimately show ?case using Nil by auto
next
  case (Cons x xs)
  obtain d u where x: "x = (d, u)" by (cases x)
  with Cons.prems obtain dn where dn: "next_node h = Some d" "node s d = Some dn" "node_value dn = u"
    "node_chain s (next_node dn) xs" by auto
  have "this \<notin> set (map fst (x # xs))" using Cons.prems by (rule sentinel_not_in_chain)
  then have td: "this \<noteq> d" and tx: "this \<notin> set (map fst xs)" using x by auto
  have "distinct (map fst (x # xs))" using Cons.prems(2) by (rule node_chain_distinct)
  then have dx: "d \<notin> set (map fst xs)" using x by simp
  define s1 where "s1 = s\<lparr>node := (node s)(this \<mapsto> h\<lparr>next_node := next_node dn\<rparr>, d := None),
                          deleted := deleted s @ [u]\<rparr>"
  have step: "Clear_loop this s = Clear_loop this s1"
    using Cons.prems(1) dn td by (subst Clear_loop.simps) (simp add: delete_Node_def s1_def)
  have h1: "node s1 this = Some (h\<lparr>next_node := next_node dn\<rparr>)" using td by (simp add: s1_def)
  have "node_chain s1 (next_node dn) xs" using dn(4)
  proof (rule node_chain_frame)
    show "\<forall>a\<in>set (map fst xs). node s1 a = node s a" using tx dx by (auto simp: s1_def)
  qed
  then have "node_chain s1 (next_node (h\<lparr>next_node := next_node dn\<rparr>)) xs" by simp
  from Cons.IH [OF h1 this] obtain t where t: "Clear_loop this s1 = Some (Returns () t)"
    "node t this = Some (h\<lparr>next_node := None\<rparr>)" "\<forall>a\<in>set (map fst xs). node t a = None"
    "\<forall>b. b \<notin> insert this (set (map fst xs)) \<longrightarrow> node t b = node s1 b"
    "list_size t = list_size s1" "deleted t = deleted s1 @ map snd xs" by auto
  have "node t d = None" using t(4) td dx by (simp add: s1_def)
  moreover have "\<forall>b. b \<notin> insert this (set (map fst (x # xs))) \<longrightarrow> node t b = node s b"
    using t(4) x by (simp add: s1_def)
  moreover have "deleted t = deleted s @ map snd (x # xs)" using t(6) x by (simp add: s1_def)
  moreover have "list_size t = list_size s" using t(5) by (simp add: s1_def)
  ultimately show ?case using step t(1,2,3) x by auto
qed

lemma Clear_spec:
  assumes "is_list s this xs"
  shows "\<exists>t. Clear this s = Some (Returns () t) \<and> is_list t this [] \<and>
             (\<forall>a\<in>set (map fst xs). node t a = None) \<and>
             unchanged_except (insert this (set (map fst xs))) s t \<and>
             dom (list_size t) = dom (list_size s) \<and> deleted t = deleted s @ map snd xs"
proof -
  from assms obtain h n where h: "node s this = Some h" "node_chain s (next_node h) xs"
    "list_size s this = Some n" by (auto simp: is_list_iff)
  from Clear_loop_spec [OF h(1,2)] obtain t1 where t1: "Clear_loop this s = Some (Returns () t1)"
    "node t1 this = Some (h\<lparr>next_node := None\<rparr>)" "\<forall>a\<in>set (map fst xs). node t1 a = None"
    "\<forall>b. b \<notin> insert this (set (map fst xs)) \<longrightarrow> node t1 b = node s b"
    "list_size t1 = list_size s" "deleted t1 = deleted s @ map snd xs" by auto
  define t where "t = t1\<lparr>list_size := (list_size t1)(this \<mapsto> 0)\<rparr>"
  have "Clear this s = Some (Returns () t)" using t1(1,5) h(3) by (simp add: Clear_def t_def)
  moreover have "is_list t this []" using t1(2) by (simp add: is_list_iff t_def)
  moreover have "\<forall>a\<in>set (map fst xs). node t a = None" using t1(3) by (simp add: t_def)
  moreover have "unchanged_except (insert this (set (map fst xs))) s t"
    using t1(4,5) by (simp add: unchanged_except_def t_def)
  moreover have "dom (list_size t) = dom (list_size s)" using t1(5) h(3) by (auto simp: t_def)
  moreover have "deleted t = deleted s @ map snd xs" using t1(6) by (simp add: t_def)
  ultimately show ?thesis by blast
qed

lemma destructor_spec:
  assumes "is_list s this xs"
  shows "\<exists>t. destructor this s = Some (Returns () t) \<and>
             node t this = None \<and> list_size t this = None \<and>
             (\<forall>a\<in>set (map fst xs). node t a = None) \<and>
             unchanged_except (insert this (set (map fst xs))) s t \<and>
             dom (list_size t) = dom (list_size s) - {this} \<and> deleted t = deleted s @ map snd xs"
proof -
  from Clear_spec [OF assms] obtain t1 where t1: "Clear this s = Some (Returns () t1)"
    "\<forall>a\<in>set (map fst xs). node t1 a = None"
    "unchanged_except (insert this (set (map fst xs))) s t1"
    "dom (list_size t1) = dom (list_size s)" "deleted t1 = deleted s @ map snd xs" by auto
  have "destructor this s = Some (Returns () (release_object this t1))"
    using t1(1) by (simp add: destructor_def)
  moreover have "unchanged_except (insert this (set (map fst xs))) s (release_object this t1)"
    using t1(3) by (simp add: unchanged_except_def release_object_def)
  moreover have "dom (list_size (release_object this t1)) = dom (list_size s) - {this}"
    using t1(4) by (auto simp: release_object_def)
  ultimately show ?thesis using t1(2,5) by (auto simp: release_object_def)
qed

subsection \<open>Building a chain\<close>

text \<open>Appending in the construction loops is \<open>InsertAfter\<close> at the last position.\<close>

lemma append_node_as_InsertAfter:
  assumes "node s p = Some pn" and "next_node pn = None" and "node s a = None"
    and "first \<longrightarrow> p = target" and "\<not> first \<longrightarrow> next = Some p"
  shows "append_node (At a) v target next first s =
           (case InsertAfter (At a) (Some p) v target s of
              Returns r t \<Rightarrow> Returns a t | Throws e t \<Rightarrow> Throws e t
            | Aborts \<Rightarrow> Aborts | Undefined \<Rightarrow> Undefined)"
proof -
  from assms(1,3) have "a \<noteq> p" by auto
  with assms show ?thesis
    by (cases first) (auto simp: append_node_def InsertAfter_def new_Node_def split: option.splits)
qed

lemma append_node_spec:
  assumes "is_list s target done" and "node s a = None"
    and "first \<longleftrightarrow> done = []" and "\<not> first \<longrightarrow> next = Some (fst (last done))"
  shows "\<exists>t. append_node (At a) v target next first s = Returns a t \<and>
             is_list t target (done @ [(a, v)]) \<and>
             unchanged_except (insert a (insert target (set (map fst done)))) s t \<and>
             dom (list_size t) = dom (list_size s) \<and> deleted t = deleted s"
proof -
  from assms(1) obtain h where h: "node s target = Some h" "node_chain s (Some target) ((target, node_value h) # done)"
    by (auto simp: is_list_iff)
  define cells where "cells = (target, node_value h) # done"
  define p where "p = fst (last cells)"
  define w where "w = snd (last cells)"
  have dec: "(target, node_value h) # done = butlast cells @ (p, w) # []"
    by (simp add: cells_def p_def w_def del: butlast.simps last.simps)
  with h(2) have "node_chain s (Some target) (butlast cells @ (p, w) # [])" by simp
  then have "node_chain s (Some p) ((p, w) # [])" by (rule node_chain_suffix)
  then obtain pn where pn: "node s p = Some pn" "next_node pn = None" by auto
  have fp: "first \<longrightarrow> p = target" using assms(3) by (simp add: p_def cells_def)
  have np: "\<not> first \<longrightarrow> next = Some p" using assms(3,4) by (simp add: p_def cells_def)
  from InsertAfter_spec [OF assms(1) h(1) dec assms(2), of v]
  obtain t where t: "InsertAfter (At a) (Some p) v target s = Returns (Some a) t"
    "is_list t target (tl (butlast cells @ (p, w) # (a, v) # []))"
    "unchanged_except {target, p, a} s t"
    "dom (list_size t) = dom (list_size s)" "deleted t = deleted s" by blast
  have "butlast cells @ (p, w) # (a, v) # [] = (target, node_value h) # done @ [(a, v)]"
    using dec by simp
  with t(2) have "is_list t target (done @ [(a, v)])" by simp
  moreover have "p \<in> insert target (set (map fst done))"
    by (cases "done = []") (auto simp: p_def cells_def)
  with t(3) have "unchanged_except (insert a (insert target (set (map fst done)))) s t"
    by (auto intro: unchanged_except_mono)
  moreover have "append_node (At a) v target next first s = Returns a t"
    using append_node_as_InsertAfter [OF pn assms(2) fp np, of v] t(1) by simp
  ultimately show ?thesis using t(4,5) by blast
qed

lemma init_loop_spec:
  assumes "is_list s this done" and "first \<longleftrightarrow> done = []"
    and "\<not> first \<longrightarrow> next = Some (fst (last done))"
    and "distinct as" and "\<forall>a\<in>set as. node s a = None" and "length values \<le> length as"
  shows "\<exists>t. init_loop (map At as) values this next first s = Returns () t \<and>
             is_list t this (done @ zip as values) \<and>
             unchanged_except (insert this (set (map fst done) \<union> set as)) s t \<and>
             dom (list_size t) = dom (list_size s) \<and> deleted t = deleted s"
  using assms
proof (induction "values" arbitrary: as s "done" "next" first)
  case Nil
  then show ?case by (auto simp: unchanged_except_refl)
next
  case (Cons v vs)
  then obtain a as' where as: "as = a # as'" by (cases as) auto
  with Cons.prems have a: "node s a = None" by simp
  from append_node_spec [OF Cons.prems(1) a Cons.prems(2,3), of v]
  obtain t1 where t1: "append_node (At a) v this next first s = Returns a t1"
    "is_list t1 this (done @ [(a, v)])"
    "unchanged_except (insert a (insert this (set (map fst done)))) s t1"
    "dom (list_size t1) = dom (list_size s)" "deleted t1 = deleted s" by blast
  have live: "\<forall>b\<in>insert this (set (map fst done)). node s b \<noteq> None"
    using is_list_live [OF Cons.prems(1)] Cons.prems(1) by (auto simp: is_list_iff)
  have fresh: "\<forall>b\<in>set as'. node t1 b = None"
  proof
    fix b assume b: "b \<in> set as'"
    with Cons.prems(4,5) as have "node s b = None" "b \<noteq> a" by auto
    with live have "b \<notin> insert a (insert this (set (map fst done)))" by auto
    with t1(3) \<open>node s b = None\<close> show "node t1 b = None" by (simp add: unchanged_except_def)
  qed
  have "\<exists>t. init_loop (map At as') vs this (Some a) False t1 = Returns () t \<and>
             is_list t this ((done @ [(a, v)]) @ zip as' vs) \<and>
             unchanged_except (insert this (set (map fst (done @ [(a, v)])) \<union> set as')) t1 t \<and>
             dom (list_size t) = dom (list_size t1) \<and> deleted t = deleted t1"
    using t1(2) fresh Cons.prems(4,6) as by (intro Cons.IH) auto
  then obtain t where t: "init_loop (map At as') vs this (Some a) False t1 = Returns () t"
    "is_list t this ((done @ [(a, v)]) @ zip as' vs)"
    "unchanged_except (insert this (set (map fst (done @ [(a, v)])) \<union> set as')) t1 t"
    "dom (list_size t) = dom (list_size t1)" "deleted t = deleted t1" by blast
  have "init_loop (map At as) (v # vs) this next first s = Returns () t"
    using t1(1) t(1) as by simp
  moreover have "is_list t this (done @ zip as (v # vs))" using t(2) as by simp
  moreover have "unchanged_except (insert this (set (map fst done) \<union> set as)) s t"
    using t1(3) t(3) by (rule unchanged_except_trans) (auto simp: as)
  ultimately show ?case using t(4,5) t1(4,5) by auto
qed

lemma init_members_is_list:
  "is_list (init_members dflt this s) this []"
  by (simp add: is_list_iff init_members_def)

lemma init_members_unchanged:
  "unchanged_except {this} s (init_members dflt this s)"
  by (simp add: unchanged_except_def init_members_def)

lemma SingleLinkedList_init_spec:
  assumes "node s this = None" and "distinct as" and "this \<notin> set as"
    and "\<forall>a\<in>set as. node s a = None" and "length values \<le> length as"
  shows "\<exists>t. SingleLinkedList_init dflt (map At as) values this s = Returns () t \<and>
             is_list t this (zip as values) \<and>
             unchanged_except (insert this (set as)) s t \<and>
             dom (list_size t) = insert this (dom (list_size s)) \<and> deleted t = deleted s"
proof -
  define s0 where "s0 = init_members dflt this s"
  have l0: "is_list s0 this []" unfolding s0_def by (rule init_members_is_list)
  have u0: "unchanged_except {this} s s0" unfolding s0_def by (rule init_members_unchanged)
  have d0: "dom (list_size s0) = insert this (dom (list_size s))" "deleted s0 = deleted s"
    by (auto simp: s0_def init_members_def)
  have f0: "\<forall>a\<in>set as. node s0 a = None"
    using assms(3,4) by (auto simp: s0_def init_members_def)
  from init_loop_spec [OF l0 _ _ assms(2) f0 assms(5), of True None]
  obtain t where t: "init_loop (map At as) values this None True s0 = Returns () t"
    "is_list t this (zip as values)" "unchanged_except (insert this (set as)) s0 t"
    "dom (list_size t) = dom (list_size s0)" "deleted t = deleted s0" by auto
  have "unchanged_except (insert this (set as)) s t"
    using u0 t(3) by (rule unchanged_except_trans) auto
  moreover have "SingleLinkedList_init dflt (map At as) values this s = Returns () t"
  proof (cases "values")
    case Nil
    with t(1) show ?thesis by (simp add: SingleLinkedList_init_def s0_def)
  next
    case (Cons v vs)
    with t(1) show ?thesis by (simp add: SingleLinkedList_init_def s0_def)
  qed
  ultimately show ?thesis using t(2,4,5) d0 by auto
qed

lemma copy_loop_spec:
  assumes "is_list s temp done" and "first \<longleftrightarrow> done = []"
    and "\<not> first \<longrightarrow> next = Some (fst (last done))"
    and "node_chain s it rest" and "temp \<notin> set (map fst rest)"
    and "set (map fst done) \<inter> set (map fst rest) = {}"
    and "distinct as" and "\<forall>a\<in>set as. node s a = None" and "length rest \<le> length as"
  shows "\<exists>t. copy_loop (map At as) it temp next first s = Returns () t \<and>
             is_list t temp (done @ zip as (map snd rest)) \<and>
             unchanged_except (insert temp (set (map fst done) \<union> set as)) s t \<and>
             dom (list_size t) = dom (list_size s) \<and> deleted t = deleted s"
  using assms
proof (induction rest arbitrary: as s "done" "next" first it)
  case Nil
  then have "it = None" by simp
  then have "copy_loop (map At as) it temp next first s = Returns () s"
    by (cases as) (simp_all add: iter_neq_def const_end_def)
  with Nil.prems(1) show ?case by (auto simp: unchanged_except_refl)
next
  case (Cons c rest)
  obtain r x where c: "c = (r, x)" by (cases c)
  with Cons.prems(4) obtain rn where rn: "it = Some r" "node s r = Some rn" "node_value rn = x"
    "node_chain s (next_node rn) rest" by auto
  from Cons.prems(9) obtain a as' where as: "as = a # as'" by (cases as) auto
  with Cons.prems have a: "node s a = None" by simp
  from append_node_spec [OF Cons.prems(1) a Cons.prems(2,3), of x]
  obtain t1 where t1: "append_node (At a) x temp next first s = Returns a t1"
    "is_list t1 temp (done @ [(a, x)])"
    "unchanged_except (insert a (insert temp (set (map fst done)))) s t1"
    "dom (list_size t1) = dom (list_size s)" "deleted t1 = deleted s" by blast
  have live: "\<forall>b\<in>insert temp (set (map fst done)). node s b \<noteq> None"
    using is_list_live [OF Cons.prems(1)] Cons.prems(1) by (auto simp: is_list_iff)
  have rest_live: "\<forall>b\<in>set (map fst (c # rest)). node s b \<noteq> None"
    using node_chain_live [OF Cons.prems(4)] by blast
  have same: "\<forall>b\<in>set (map fst (c # rest)). node t1 b = node s b"
  proof
    fix b assume b: "b \<in> set (map fst (c # rest))"
    with rest_live a have "b \<noteq> a" by auto
    with b Cons.prems(5,6) have "b \<notin> insert a (insert temp (set (map fst done)))" by auto
    with t1(3) show "node t1 b = node s b" by (simp add: unchanged_except_def)
  qed
  then have r1: "node t1 r = Some rn" using rn(2) c by simp
  have ch1: "node_chain t1 (next_node rn) rest" using rn(4)
    by (rule node_chain_frame) (use same in auto)
  have fresh: "\<forall>b\<in>set as'. node t1 b = None"
  proof
    fix b assume b: "b \<in> set as'"
    with Cons.prems(7,8) as have "node s b = None" "b \<noteq> a" by auto
    with live have "b \<notin> insert a (insert temp (set (map fst done)))" by auto
    with t1(3) \<open>node s b = None\<close> show "node t1 b = None" by (simp add: unchanged_except_def)
  qed
  have disj: "set (map fst (done @ [(a, x)])) \<inter> set (map fst rest) = {}"
    using Cons.prems(6) a rest_live by auto
  have "\<exists>t. copy_loop (map At as') (next_node rn) temp (Some a) False t1 = Returns () t \<and>
             is_list t temp ((done @ [(a, x)]) @ zip as' (map snd rest)) \<and>
             unchanged_except (insert temp (set (map fst (done @ [(a, x)])) \<union> set as')) t1 t \<and>
             dom (list_size t) = dom (list_size t1) \<and> deleted t = deleted t1"
    using t1(2) ch1 fresh disj Cons.prems(5,7,9) as by (intro Cons.IH) auto
  then obtain t where t: "copy_loop (map At as') (next_node rn) temp (Some a) False t1 = Returns () t"
    "is_list t temp ((done @ [(a, x)]) @ zip as' (map snd rest))"
    "unchanged_except (insert temp (set (map fst (done @ [(a, x)])) \<union> set as')) t1 t"
    "dom (list_size t) = dom (list_size t1)" "deleted t = deleted t1" by blast
  have "copy_loop (map At as) it temp next first s = Returns () t"
    using t1(1) t(1) as rn r1
    by (simp add: iter_neq_def const_end_def iter_deref_def iter_inc_def)
  moreover have "is_list t temp (done @ zip as (map snd (c # rest)))" using t(2) as c by simp
  moreover have "unchanged_except (insert temp (set (map fst done) \<union> set as)) s t"
    using t1(3) t(3) by (rule unchanged_except_trans) (auto simp: as)
  ultimately show ?case using t(4,5) t1(4,5) by auto
qed

lemma SingleLinkedList_copy_spec:
  assumes "is_list s other xs" and "node s this = None" and "node s temp = None"
    and "list_size s temp = None" and "this \<noteq> temp"
    and "distinct as" and "this \<notin> set as" and "temp \<notin> set as"
    and "\<forall>a\<in>set as. node s a = None" and "length xs \<le> length as"
  shows "\<exists>t. SingleLinkedList_copy dflt (map At as) temp other this s = Some (Returns () t) \<and>
             is_list t this (zip as (map snd xs)) \<and> is_list t other xs \<and>
             unchanged_except (insert this (insert temp (set as))) s t \<and>
             node t temp = None \<and>
             dom (list_size t) = insert this (dom (list_size s)) \<and> deleted t = deleted s"
proof -
  define A where "A = insert this (insert temp (set as))"
  from assms(1) obtain ho n where ho: "node s other = Some ho" "node_chain s (next_node ho) xs"
    "list_size s other = Some n" "unat n = length xs" by (auto simp: is_list_iff)
  have dead: "\<forall>b\<in>A. node s b = None" using assms(2,3,9) by (auto simp: A_def)
  with ho(1) have oA: "other \<notin> A" by auto
  have xA: "set (map fst xs) \<inter> A = {}"
  proof (rule ccontr)
    assume "set (map fst xs) \<inter> A \<noteq> {}"
    then obtain b where b: "b \<in> set (map fst xs)" "b \<in> A" by blast
    from assms(1) b(1) have "node s b \<noteq> None" by (rule is_list_live)
    moreover from dead b(2) have "node s b = None" by (rule bspec)
    ultimately show False by simp
  qed
  define s0 where "s0 = init_members dflt this s"
  have u0: "unchanged_except {this} s s0" unfolding s0_def by (rule init_members_unchanged)
  have l0: "is_list s0 this []" unfolding s0_def by (rule init_members_is_list)
  have d0: "dom (list_size s0) = insert this (dom (list_size s))" "deleted s0 = deleted s"
    by (auto simp: s0_def init_members_def)
  have o0: "is_list s0 other xs"
    using assms(1) u0 by (rule is_list_frame) (use oA xA in \<open>auto simp: A_def\<close>)
  from oA have "other \<noteq> this" by (auto simp: A_def)
  then have sz0: "list_size s0 other = Some n" using ho(3) by (simp add: s0_def init_members_def)
  show ?thesis
  proof (cases xs)
    case Nil
    with ho(4) have "n = 0" by (simp add: unat_eq_0)
    with sz0 have "SingleLinkedList_copy dflt (map At as) temp other this s = Some (Returns () s0)"
      by (simp add: SingleLinkedList_copy_def IsEmpty_def s0_def)
    moreover have "unchanged_except A s s0" using u0 by (rule unchanged_except_mono) (simp add: A_def)
    moreover have "node s0 temp = None" using assms(3,5) by (simp add: s0_def init_members_def)
    ultimately show ?thesis using l0 o0 d0 Nil by (auto simp: A_def)
  next
    case (Cons x xs')
    with ho(4) have n0: "n \<noteq> 0" by auto
    define s1 where "s1 = init_members dflt temp s0"
    have u1: "unchanged_except {temp} s0 s1" unfolding s1_def by (rule init_members_unchanged)
    have l1: "is_list s1 temp []" unfolding s1_def by (rule init_members_is_list)
    have d1: "dom (list_size s1) = insert temp (dom (list_size s0))" "deleted s1 = deleted s0"
      by (auto simp: s1_def init_members_def)
    have o1: "is_list s1 other xs"
      using o0 u1 by (rule is_list_frame) (use oA xA in \<open>auto simp: A_def\<close>)
    then obtain h1 where h1: "node s1 other = Some h1" "node_chain s1 (next_node h1) xs"
      by (auto simp: is_list_iff)
    have this1: "is_list s1 this []"
      using l0 u1 by (rule is_list_frame) (use assms(5) in auto)
    have f1: "\<forall>a\<in>set as. node s1 a = None"
      using assms(7,8,9) by (auto simp: s1_def s0_def init_members_def)
    have tx: "temp \<notin> set (map fst xs)" using xA by (auto simp: A_def)
    from copy_loop_spec [OF l1 _ _ h1(2) tx _ assms(6) f1 assms(10), of True None]
    obtain t1 where t1: "copy_loop (map At as) (next_node h1) temp None True s1 = Returns () t1"
      "is_list t1 temp (zip as (map snd xs))"
      "unchanged_except (insert temp (set as)) s1 t1"
      "dom (list_size t1) = dom (list_size s1)" "deleted t1 = deleted s1" by auto
    define zs where "zs = zip as (map snd xs)"
    have zs: "set (map fst zs) \<subseteq> set as" unfolding zs_def by (auto dest: set_zip_leftD)
    have this2: "is_list t1 this []"
      using this1 t1(3) by (rule is_list_frame) (use assms(5,7) in auto)
    have "this \<notin> set (map fst zs)" using zs assms(7) by auto
    with this2 t1(2) have "\<exists>t. swap_lists this temp t1 = Returns () t \<and> is_list t this zs \<and> is_list t temp [] \<and>
             unchanged_except {this, temp} t1 t \<and> dom (list_size t) = dom (list_size t1) \<and>
             deleted t = deleted t1"
      unfolding zs_def by (intro swap_lists_spec) auto
    then obtain t2 where t2: "swap_lists this temp t1 = Returns () t2" "is_list t2 this zs"
      "is_list t2 temp []" "unchanged_except {this, temp} t1 t2"
      "dom (list_size t2) = dom (list_size t1)" "deleted t2 = deleted t1" by blast
    from destructor_spec [OF t2(3)] obtain t3 where t3: "destructor temp t2 = Some (Returns () t3)"
      "node t3 temp = None" "unchanged_except {temp} t2 t3"
      "dom (list_size t3) = dom (list_size t2) - {temp}" "deleted t3 = deleted t2"
      by auto
    have run: "SingleLinkedList_copy dflt (map At as) temp other this s = Some (Returns () t3)"
      using sz0 n0 h1(1) t1(1) t2(1) t3(1)
      by (simp add: SingleLinkedList_copy_def IsEmpty_def const_begin_def s0_def s1_def)
    have tz: "temp \<notin> set (map fst zs)" using zs assms(8) by auto
    from t2(2) t3(3) have "is_list t3 this zs"
      by (rule is_list_frame) (use assms(5) tz in auto)
    moreover have u: "unchanged_except A s t3"
    proof -
      have "unchanged_except A s s1" using u0 u1 by (rule unchanged_except_trans) (auto simp: A_def)
      then have "unchanged_except A s t1" using t1(3) by (rule unchanged_except_trans) (auto simp: A_def)
      then have "unchanged_except A s t2" using t2(4) by (rule unchanged_except_trans) (auto simp: A_def)
      then show ?thesis using t3(3) by (rule unchanged_except_trans) (auto simp: A_def)
    qed
    moreover have "is_list t3 other xs" using assms(1) u oA xA by (rule is_list_frame)
    moreover have "dom (list_size t3) = insert this (dom (list_size s))"
      using t3(4) t2(5) t1(4) d1(1) d0(1) assms(4,5) by auto
    moreover have "deleted t3 = deleted s" using t3(5) t2(6) t1(5) d1(2) d0(2) by simp
    ultimately show ?thesis using run t3(2) by (auto simp: A_def zs_def)
  qed
qed

subsection \<open>Mutations within the contract\<close>

lemma cell_decomp:
  assumes "a \<in> set (map fst cells)"
  shows "\<exists>pre w post. cells = pre @ (a, w) # post"
proof -
  from assms obtain c where c: "c \<in> set cells" "fst c = a" by auto
  from c(1) obtain pre post where "cells = pre @ c # post" by (auto dest: split_list)
  with c(2) have "cells = pre @ (a, snd c) # post" by auto
  then show ?thesis by blast
qed

lemma on_list_cells:
  assumes "is_list s this xs" and "on_list s this p"
  shows "p \<in> insert this (set (map fst xs))"
  using assms(2)
proof (induction rule: on_list.induct)
  case sentinel
  then show ?case by simp
next
  case (successor p n q)
  from assms(1) obtain h where h: "node s this = Some h"
    "node_chain s (Some this) ((this, node_value h) # xs)" by (auto simp: is_list_iff)
  from successor.IH have "p \<in> set (map fst ((this, node_value h) # xs))" by simp
  then have "\<exists>pre w post. (this, node_value h) # xs = pre @ (p, w) # post" by (rule cell_decomp)
  then obtain pre w post where dec: "(this, node_value h) # xs = pre @ (p, w) # post"
    by blast
  with h(2) have "node_chain s (Some this) (pre @ (p, w) # post)" by simp
  then have "node_chain s (Some p) ((p, w) # post)" by (rule node_chain_suffix)
  with successor(2,3) have "node_chain s (Some q) post" by simp
  then obtain y post' where "post = y # post'" "fst y = q" by (cases post) auto
  with dec have "(this, node_value h) # xs = pre @ (p, w) # (q, snd y) # post'" by auto
  then have "q \<in> set (map fst ((this, node_value h) # xs))" by (simp del: list.map)
  then show ?case by simp
qed

lemma InsertAfter_Fails:
  assumes "node s p \<noteq> None"
  shows "InsertAfter (Fails e) (Some p) v this s = Throws e s"
  using assms by (auto simp: InsertAfter_def new_Node_def)

lemma PushFront_Fails:
  assumes "node s this \<noteq> None"
  shows "PushFront (Fails e) v this s = Throws e s"
  using assms by (auto simp: PushFront_def new_Node_def)

lemma PopFront_empty:
  assumes "is_list s this []"
  shows "PopFront this s = Returns () s"
  using assms by (auto simp: PopFront_def IsEmpty_def is_list_iff unat_eq_0)

lemma tl_cells_subset:
  assumes "is_list t this (tl cells)" and "cells \<noteq> []"
  shows "set (map fst (tl cells)) \<subseteq> set (map fst cells) - {this}"
proof -
  have "this \<notin> set (map fst (tl cells))" using assms(1) by (rule is_list_not_sentinel)
  moreover have "set (map fst (tl cells)) \<subseteq> set (map fst cells)"
    using assms(2) by (cases cells) auto
  ultimately show ?thesis by blast
qed

lemma mutation_spec:
  assumes "is_list s this xs" and "mutation this s t"
  shows "\<exists>ys A. is_list t this ys \<and> unchanged_except A s t \<and>
           A \<subseteq> insert this (set (map fst xs)) \<union> {a. node s a = None} \<and>
           set (map fst ys) \<subseteq> set (map fst xs) \<union> {a. node s a = None} \<and>
           dom (list_size t) = dom (list_size s)"
proof -
  from assms(1) obtain h where h: "node s this = Some h" by (auto simp: is_list_iff)
  have same: "\<exists>ys A. is_list s this ys \<and> unchanged_except A s s \<and>
           A \<subseteq> insert this (set (map fst xs)) \<union> {a. node s a = None} \<and>
           set (map fst ys) \<subseteq> set (map fst xs) \<union> {a. node s a = None} \<and>
           dom (list_size s) = dom (list_size s)"
    using assms(1) unchanged_except_refl [of "{}" s] by blast
  have decomp: "\<exists>pre w post. (this, node_value h) # xs = pre @ (p, w) # post" if "on_list s this p" for p
  proof -
    from assms(1) that have "p \<in> insert this (set (map fst xs))" by (rule on_list_cells)
    then have "p \<in> set (map fst ((this, node_value h) # xs))" by simp
    then show ?thesis by (rule cell_decomp)
  qed
  have live: "node s p \<noteq> None" if "on_list s this p" for p
  proof -
    from assms(1) that have "p \<in> insert this (set (map fst xs))" by (rule on_list_cells)
    with h is_list_live [OF assms(1)] show ?thesis by auto
  qed
  from assms(2) show ?thesis
  proof (cases rule: mutation.cases)
    case (push_front al v)
    show ?thesis
    proof (cases al)
      case (At a)
      with push_front have a: "node s a = None" by simp
      from PushFront_spec [OF assms(1) a, of v] obtain t' where t': "PushFront (At a) v this s = Returns () t'"
        "is_list t' this ((a, v) # xs)" "unchanged_except {this, a} s t'"
        "dom (list_size t') = dom (list_size s)" by blast
      from t'(1) push_front(2) At have "t' = t" by simp
      with t'(2-4) have "is_list t this ((a, v) # xs)" "unchanged_except {this, a} s t"
        "dom (list_size t) = dom (list_size s)" by blast+
      moreover have "{this, a} \<subseteq> insert this (set (map fst xs)) \<union> {a. node s a = None}"
        using a by auto
      moreover have "set (map fst ((a, v) # xs)) \<subseteq> set (map fst xs) \<union> {a. node s a = None}"
        using a by auto
      ultimately show ?thesis by blast
    next
      case (Fails e)
      with push_front(2) h have "t = s" by (simp add: PushFront_Fails)
      with same show ?thesis by simp
    qed
  next
    case pop_front
    show ?thesis
    proof (cases xs)
      case Nil
      with assms(1) pop_front have "t = s" by (simp add: PopFront_empty)
      with same show ?thesis by simp
    next
      case (Cons x post)
      obtain d u where "x = (d, u)" by (cases x)
      with Cons assms(1) have "is_list s this ((d, u) # post)" by simp
      from PopFront_spec [OF this] obtain t' where t': "PopFront this s = Returns () t'"
        "is_list t' this post" "unchanged_except {this, d} s t'"
        "dom (list_size t') = dom (list_size s)" by blast
      from t'(1) pop_front have "t' = t" by simp
      with t'(2-4) have "is_list t this post" "unchanged_except {this, d} s t"
        "dom (list_size t) = dom (list_size s)" by blast+
      moreover have "{this, d} \<subseteq> insert this (set (map fst xs)) \<union> {a. node s a = None}"
        using Cons \<open>x = (d, u)\<close> by auto
      moreover have "set (map fst post) \<subseteq> set (map fst xs) \<union> {a. node s a = None}"
        using Cons by auto
      ultimately show ?thesis by blast
    qed
  next
    case (insert_after p al v)
    from decomp [OF insert_after(1)] obtain pre w post
      where dec: "(this, node_value h) # xs = pre @ (p, w) # post" by blast
    show ?thesis
    proof (cases al)
      case (At a)
      with insert_after have a: "node s a = None" by simp
      from InsertAfter_spec [OF assms(1) h dec a, of v] obtain t' where t': "InsertAfter (At a) (Some p) v this s = Returns (Some a) t'"
        "is_list t' this (tl (pre @ (p, w) # (a, v) # post))" "unchanged_except {this, p, a} s t'"
        "dom (list_size t') = dom (list_size s)" by blast
      from t'(1) insert_after(3) At have "t' = t" by simp
      with t'(2-4) have t: "is_list t this (tl (pre @ (p, w) # (a, v) # post))" "unchanged_except {this, p, a} s t"
        "dom (list_size t) = dom (list_size s)" by blast+
      have cells: "set (map fst (pre @ (p, w) # (a, v) # post)) = insert a (set (map fst ((this, node_value h) # xs)))"
        unfolding dec by auto
      have "p \<in> set (map fst ((this, node_value h) # xs))" unfolding dec by simp
      then have "{this, p, a} \<subseteq> insert this (set (map fst xs)) \<union> {a. node s a = None}"
        using a by auto
      moreover have "set (map fst (tl (pre @ (p, w) # (a, v) # post))) \<subseteq> set (map fst xs) \<union> {a. node s a = None}"
        using tl_cells_subset [OF t(1)] a unfolding cells by auto
      ultimately show ?thesis using t by blast
    next
      case (Fails e)
      with insert_after(3) live [OF insert_after(1)] have "t = s" by (simp add: InsertAfter_Fails)
      with same show ?thesis by simp
    qed
  next
    case (erase_after p)
    from decomp [OF erase_after(1)] obtain pre w rest
      where dec: "(this, node_value h) # xs = pre @ (p, w) # rest" by blast
    show ?thesis
    proof (cases rest)
      case Nil
      with dec have "(this, node_value h) # xs = pre @ [(p, w)]" by simp
      from EraseAfter_last [OF assms(1) h this] erase_after(2) have "t = s" by simp
      with same show ?thesis by simp
    next
      case (Cons x post)
      obtain d u where x: "x = (d, u)" by (cases x)
      with Cons dec have dec': "(this, node_value h) # xs = pre @ (p, w) # (d, u) # post" by simp
      from EraseAfter_spec [OF assms(1) h dec'] obtain t' r where t': "EraseAfter (Some p) this s = Returns r t'"
        "is_list t' this (tl (pre @ (p, w) # post))" "unchanged_except {this, p, d} s t'"
        "dom (list_size t') = dom (list_size s)" by blast
      from t'(1) erase_after(2) have "t' = t" by simp
      with t'(2-4) have t: "is_list t this (tl (pre @ (p, w) # post))" "unchanged_except {this, p, d} s t"
        "dom (list_size t) = dom (list_size s)" by blast+
      have cells: "set (map fst (pre @ (p, w) # post)) \<subseteq> set (map fst ((this, node_value h) # xs))"
        unfolding dec' by auto
      have "p \<in> set (map fst ((this, node_value h) # xs))" "d \<in> set (map fst ((this, node_value h) # xs))"
        unfolding dec' by simp_all
      moreover have "d \<noteq> this"
      proof -
        from assms(1) h have "node_chain s (Some this) ((this, node_value h) # xs)" by (auto simp: is_list_iff)
        then have "distinct (map fst ((this, node_value h) # xs))" by (rule node_chain_distinct)
        then have "distinct (map fst (pre @ (p, w) # (d, u) # post))" unfolding dec' .
        moreover have "this \<in> set (map fst (pre @ [(p, w)]))"
          using dec' by (cases pre) auto
        ultimately show ?thesis by auto
      qed
      ultimately have "{this, p, d} \<subseteq> insert this (set (map fst xs)) \<union> {a. node s a = None}"
        by auto
      moreover have "set (map fst (tl (pre @ (p, w) # post))) \<subseteq> set (map fst xs) \<union> {a. node s a = None}"
      proof -
        have "pre @ (p, w) # post \<noteq> []" by simp
        with t(1) have "set (map fst (tl (pre @ (p, w) # post))) \<subseteq> set (map fst (pre @ (p, w) # post)) - {this}"
          by (rule tl_cells_subset)
        moreover have "set (map fst ((this, node_value h) # xs)) = insert this (set (map fst xs))" by simp
        ultimately show ?thesis using cells by blast
      qed
      ultimately show ?thesis using t by blast
    qed
  next
    case (clear r)
    from Clear_spec [OF assms(1)] obtain t' where t': "Clear this s = Some (Returns () t')"
      "is_list t' this []" "unchanged_except (insert this (set (map fst xs))) s t'"
      "dom (list_size t') = dom (list_size s)" by blast
    from t'(1) clear have "t' = t" by simp
    with t'(2-4) have t: "is_list t this []" "unchanged_except (insert this (set (map fst xs))) s t"
      "dom (list_size t) = dom (list_size s)" by blast+
    have "insert this (set (map fst xs)) \<subseteq> insert this (set (map fst xs)) \<union> {a. node s a = None}"
      by blast
    moreover have "set (map fst ([] :: (addr \<times> 'a) list)) \<subseteq> set (map fst xs) \<union> {a. node s a = None}"
      by simp
    ultimately show ?thesis using t by blast
  qed
qed

lemma mutations_keep_other:
  assumes "(mutation this)\<^sup>*\<^sup>* t u"
    and "is_list t other xs" and "is_list t this ys" and "this \<noteq> other"
    and "this \<notin> set (map fst xs)"
    and "set (map fst ys) \<inter> insert other (set (map fst xs)) = {}"
  shows "is_list u other xs \<and>
         (\<exists>ys'. is_list u this ys' \<and> set (map fst ys') \<inter> insert other (set (map fst xs)) = {})"
  using assms(1)
proof (induction rule: rtranclp_induct)
  case base
  with assms show ?case by blast
next
  case (step u u')
  then obtain zs where zs: "is_list u other xs" "is_list u this zs"
    "set (map fst zs) \<inter> insert other (set (map fst xs)) = {}" by blast
  from mutation_spec [OF zs(2) step(2)] obtain zs' A where m: "is_list u' this zs'"
    "unchanged_except A u u'" "A \<subseteq> insert this (set (map fst zs)) \<union> {a. node u a = None}"
    "set (map fst zs') \<subseteq> set (map fst zs) \<union> {a. node u a = None}" by blast
  have live: "\<forall>b\<in>insert other (set (map fst xs)). node u b \<noteq> None"
    using is_list_live [OF zs(1)] zs(1) by (auto simp: is_list_iff)
  have oA: "other \<notin> A" using m(3) zs(3) assms(4) live by blast
  have xA: "set (map fst xs) \<inter> A = {}" using m(3) zs(3) assms(5) live by blast
  from zs(1) m(2) oA xA have "is_list u' other xs" by (rule is_list_frame)
  moreover have "set (map fst zs') \<inter> insert other (set (map fst xs)) = {}"
    using m(4) zs(3) live by blast
  ultimately show ?case using m(1) by blast
qed

subsection \<open>Construction with any allocation behaviour\<close>

lemma append_node_Fails:
  "append_node (Fails e) v target next first s = Throws e s"
  by (simp add: append_node_def new_Node_def)

lemma init_loop_any:
  assumes "is_list s this done" and "first \<longleftrightarrow> done = []"
    and "\<not> first \<longrightarrow> next = Some (fst (last done))"
    and "distinct (allocated als)" and "\<forall>a\<in>set (allocated als). node s a = None"
  shows "\<exists>t ys. result_state (init_loop als values this next first s) = Some t \<and>
           is_list t this (done @ ys) \<and> set (map fst ys) \<subseteq> set (allocated als) \<and>
           unchanged_except (insert this (set (map fst done) \<union> set (allocated als))) s t \<and>
           dom (list_size t) = dom (list_size s)"
  using assms
proof (induction "values" arbitrary: als s "done" "next" first)
  case Nil
  have "is_list s this (done @ [])" using Nil.prems(1) by simp
  moreover have "set (map fst ([] :: (addr \<times> 'a) list)) \<subseteq> set (allocated als)" by simp
  moreover have "result_state (init_loop als [] this next first s) = Some s" by simp
  ultimately show ?case using unchanged_except_refl by blast
next
  case (Cons v vs)
  define al where "al = (case als of [] \<Rightarrow> Fails bad_alloc | al # rest \<Rightarrow> al)"
  have stay: ?case if "al = Fails e" for e
  proof -
    from that have "init_loop als (v # vs) this next first s = Throws e s"
      by (simp add: al_def append_node_Fails)
    then have "result_state (init_loop als (v # vs) this next first s) = Some s" by simp
    moreover have "is_list s this (done @ [])" using Cons.prems(1) by simp
    moreover have "set (map fst ([] :: (addr \<times> 'a) list)) \<subseteq> set (allocated als)" by simp
    ultimately show ?thesis using unchanged_except_refl by blast
  qed
  show ?case
  proof (cases al)
    case (Fails e)
    then show ?thesis by (rule stay)
  next
    case (At a)
    then obtain rest where als: "als = At a # rest" by (cases als) (auto simp: al_def)
    with Cons.prems have a: "node s a = None" by simp
    from append_node_spec [OF Cons.prems(1) a Cons.prems(2,3), of v]
    obtain t1 where t1: "append_node (At a) v this next first s = Returns a t1"
      "is_list t1 this (done @ [(a, v)])"
      "unchanged_except (insert a (insert this (set (map fst done)))) s t1"
      "dom (list_size t1) = dom (list_size s)" by blast
    have live: "\<forall>b\<in>insert this (set (map fst done)). node s b \<noteq> None"
      using is_list_live [OF Cons.prems(1)] Cons.prems(1) by (auto simp: is_list_iff)
    have fresh: "\<forall>b\<in>set (allocated rest). node t1 b = None"
    proof
      fix b assume b: "b \<in> set (allocated rest)"
      with Cons.prems(4,5) als have "node s b = None" "b \<noteq> a" by auto
      with live have "b \<notin> insert a (insert this (set (map fst done)))" by auto
      with t1(3) \<open>node s b = None\<close> show "node t1 b = None" by (simp add: unchanged_except_def)
    qed
    have "\<exists>t ys. result_state (init_loop rest vs this (Some a) False t1) = Some t \<and>
           is_list t this ((done @ [(a, v)]) @ ys) \<and> set (map fst ys) \<subseteq> set (allocated rest) \<and>
           unchanged_except (insert this (set (map fst (done @ [(a, v)])) \<union> set (allocated rest))) t1 t \<and>
           dom (list_size t) = dom (list_size t1)"
      using t1(2) fresh Cons.prems(4) als by (intro Cons.IH) auto
    then obtain t ys where t: "result_state (init_loop rest vs this (Some a) False t1) = Some t"
      "is_list t this ((done @ [(a, v)]) @ ys)" "set (map fst ys) \<subseteq> set (allocated rest)"
      "unchanged_except (insert this (set (map fst (done @ [(a, v)])) \<union> set (allocated rest))) t1 t"
      "dom (list_size t) = dom (list_size t1)" by blast
    have "result_state (init_loop als (v # vs) this next first s) = Some t"
      using t1(1) t(1) als by simp
    moreover have "is_list t this (done @ (a, v) # ys)" using t(2) by simp
    moreover have "set (map fst ((a, v) # ys)) \<subseteq> set (allocated als)" using t(3) als by auto
    moreover have "unchanged_except (insert this (set (map fst done) \<union> set (allocated als))) s t"
      using t1(3) t(4) by (rule unchanged_except_trans) (auto simp: als)
    moreover have "dom (list_size t) = dom (list_size s)" using t(5) t1(4) by simp
    ultimately show ?thesis by blast
  qed
qed

lemma copy_loop_any:
  assumes "is_list s temp done" and "first \<longleftrightarrow> done = []"
    and "\<not> first \<longrightarrow> next = Some (fst (last done))"
    and "node_chain s it rest" and "temp \<notin> set (map fst rest)"
    and "set (map fst done) \<inter> set (map fst rest) = {}"
    and "distinct (allocated als)" and "\<forall>a\<in>set (allocated als). node s a = None"
  shows "\<exists>t ys. result_state (copy_loop als it temp next first s) = Some t \<and>
           is_list t temp (done @ ys) \<and> set (map fst ys) \<subseteq> set (allocated als) \<and>
           unchanged_except (insert temp (set (map fst done) \<union> set (allocated als))) s t \<and>
           dom (list_size t) = dom (list_size s) \<and> deleted t = deleted s"
  using assms
proof (induction rest arbitrary: als s "done" "next" first it)
  case Nil
  then have "it = None" by simp
  then have "copy_loop als it temp next first s = Returns () s"
    by (cases als) (simp_all add: iter_neq_def const_end_def)
  then have "result_state (copy_loop als it temp next first s) = Some s" by simp
  moreover have "is_list s temp (done @ [])" using Nil.prems(1) by simp
  moreover have "set (map fst ([] :: (addr \<times> 'a) list)) \<subseteq> set (allocated als)" by simp
  ultimately show ?case using unchanged_except_refl by blast
next
  case (Cons c rest)
  obtain r x where c: "c = (r, x)" by (cases c)
  with Cons.prems(4) obtain rn where rn: "it = Some r" "node s r = Some rn" "node_value rn = x"
    "node_chain s (next_node rn) rest" by auto
  have stay: ?case if "copy_loop als it temp next first s = Throws e s" for e
  proof -
    from that have "result_state (copy_loop als it temp next first s) = Some s" by simp
    moreover have "is_list s temp (done @ [])" using Cons.prems(1) by simp
    moreover have "set (map fst ([] :: (addr \<times> 'a) list)) \<subseteq> set (allocated als)" by simp
    ultimately show ?thesis using unchanged_except_refl by blast
  qed
  show ?case
  proof (cases als)
    case Nil
    with rn have "copy_loop als it temp next first s = Throws bad_alloc s"
      by (simp add: iter_neq_def const_end_def iter_deref_def)
    then show ?thesis by (rule stay)
  next
    case als: (Cons al als')
    show ?thesis
    proof (cases al)
      case (Fails e)
      with als rn have "copy_loop als it temp next first s = Throws e s"
        by (simp add: iter_neq_def const_end_def iter_deref_def append_node_Fails)
      then show ?thesis by (rule stay)
    next
      case (At a)
      with als Cons.prems have a: "node s a = None" by simp
      from append_node_spec [OF Cons.prems(1) a Cons.prems(2,3), of x]
      obtain t1 where t1: "append_node (At a) x temp next first s = Returns a t1"
        "is_list t1 temp (done @ [(a, x)])"
        "unchanged_except (insert a (insert temp (set (map fst done)))) s t1"
        "dom (list_size t1) = dom (list_size s)" "deleted t1 = deleted s" by blast
      have live: "\<forall>b\<in>insert temp (set (map fst done)). node s b \<noteq> None"
        using is_list_live [OF Cons.prems(1)] Cons.prems(1) by (auto simp: is_list_iff)
      have rest_live: "\<forall>b\<in>set (map fst (c # rest)). node s b \<noteq> None"
        using node_chain_live [OF Cons.prems(4)] by blast
      have same: "\<forall>b\<in>set (map fst (c # rest)). node t1 b = node s b"
      proof
        fix b assume b: "b \<in> set (map fst (c # rest))"
        with rest_live a have "b \<noteq> a" by auto
        with b Cons.prems(5,6) have "b \<notin> insert a (insert temp (set (map fst done)))" by auto
        with t1(3) show "node t1 b = node s b" by (simp add: unchanged_except_def)
      qed
      then have r1: "node t1 r = Some rn" using rn(2) c by simp
      have ch1: "node_chain t1 (next_node rn) rest" using rn(4)
        by (rule node_chain_frame) (use same in auto)
      have fresh: "\<forall>b\<in>set (allocated als'). node t1 b = None"
      proof
        fix b assume b: "b \<in> set (allocated als')"
        with Cons.prems(7,8) als At have "node s b = None" "b \<noteq> a" by auto
        with live have "b \<notin> insert a (insert temp (set (map fst done)))" by auto
        with t1(3) \<open>node s b = None\<close> show "node t1 b = None" by (simp add: unchanged_except_def)
      qed
      have disj: "set (map fst (done @ [(a, x)])) \<inter> set (map fst rest) = {}"
        using Cons.prems(6) a rest_live by auto
      have "\<exists>t ys. result_state (copy_loop als' (next_node rn) temp (Some a) False t1) = Some t \<and>
             is_list t temp ((done @ [(a, x)]) @ ys) \<and> set (map fst ys) \<subseteq> set (allocated als') \<and>
             unchanged_except (insert temp (set (map fst (done @ [(a, x)])) \<union> set (allocated als'))) t1 t \<and>
             dom (list_size t) = dom (list_size t1) \<and> deleted t = deleted t1"
        using t1(2) ch1 fresh disj Cons.prems(5,7) als At by (intro Cons.IH) auto
      then obtain t ys where t: "result_state (copy_loop als' (next_node rn) temp (Some a) False t1) = Some t"
        "is_list t temp ((done @ [(a, x)]) @ ys)" "set (map fst ys) \<subseteq> set (allocated als')"
        "unchanged_except (insert temp (set (map fst (done @ [(a, x)])) \<union> set (allocated als'))) t1 t"
        "dom (list_size t) = dom (list_size t1)" "deleted t = deleted t1" by blast
      have "result_state (copy_loop als it temp next first s) = Some t"
        using t1(1) t(1) als At rn r1
        by (simp add: iter_neq_def const_end_def iter_deref_def iter_inc_def)
      moreover have "is_list t temp (done @ (a, x) # ys)" using t(2) by simp
      moreover have "set (map fst ((a, x) # ys)) \<subseteq> set (allocated als)" using t(3) als At by auto
      moreover have "unchanged_except (insert temp (set (map fst done) \<union> set (allocated als))) s t"
        using t1(3) t(4) by (rule unchanged_except_trans) (auto simp: als At)
      moreover have "dom (list_size t) = dom (list_size s)" "deleted t = deleted s"
        using t(5,6) t1(4,5) by simp_all
      ultimately show ?thesis by blast
    qed
  qed
qed

lemma result_state_cases:
  assumes "result_state r = Some t"
  obtains (returns) u where "r = Returns u t" | (throws) e where "r = Throws e t"
  using assms by (cases r) auto

lemma SingleLinkedList_init_any:
  assumes "node s this = None" and "distinct (allocated als)" and "this \<notin> set (allocated als)"
    and "\<forall>a\<in>set (allocated als). node s a = None"
  shows "\<exists>t. result_state (SingleLinkedList_init dflt als values this s) = Some t \<and>
           unchanged_except (insert this (set (allocated als))) s t \<and>
           ((\<exists>ys. is_list t this ys \<and> set (map fst ys) \<subseteq> set (allocated als) \<and>
                  dom (list_size t) = insert this (dom (list_size s))) \<or>
            dom (list_size t) = dom (list_size s) - {this})"
proof -
  define A where "A = insert this (set (allocated als))"
  define s0 where "s0 = init_members dflt this s"
  have l0: "is_list s0 this []" unfolding s0_def by (rule init_members_is_list)
  have u0: "unchanged_except {this} s s0" unfolding s0_def by (rule init_members_unchanged)
  have d0: "dom (list_size s0) = insert this (dom (list_size s))"
    by (auto simp: s0_def init_members_def)
  have f0: "\<forall>a\<in>set (allocated als). node s0 a = None"
    using assms(3,4) by (auto simp: s0_def init_members_def)
  have uA: "unchanged_except A s s0" using u0 by (rule unchanged_except_mono) (simp add: A_def)
  have e: "set (map fst ([] :: (addr \<times> 'a) list)) \<subseteq> set (allocated als)" by simp
  show ?thesis
  proof (cases "values")
    case Nil
    then have "result_state (SingleLinkedList_init dflt als values this s) = Some s0"
      by (simp add: SingleLinkedList_init_def s0_def)
    with uA l0 d0 e show ?thesis unfolding A_def by blast
  next
    case (Cons v vs)
    from init_loop_any [OF l0 _ _ assms(2) f0, of True None "values"]
    obtain t1 ys where t1: "result_state (init_loop als values this None True s0) = Some t1"
      "is_list t1 this ys" "set (map fst ys) \<subseteq> set (allocated als)"
      "unchanged_except (insert this (set (allocated als))) s0 t1"
      "dom (list_size t1) = dom (list_size s0)" by auto
    have u1: "unchanged_except A s t1"
      using uA t1(4) by (rule unchanged_except_trans) (auto simp: A_def)
    from t1(1) show ?thesis
    proof (cases rule: result_state_cases)
      case (returns u)
      with Cons have "result_state (SingleLinkedList_init dflt als values this s) = Some t1"
        by (simp add: SingleLinkedList_init_def s0_def)
      with u1 t1(2,3,5) d0 show ?thesis unfolding A_def by auto
    next
      case (throws e)
      with Cons have "result_state (SingleLinkedList_init dflt als values this s) = Some (release_object this t1)"
        by (simp add: SingleLinkedList_init_def s0_def)
      moreover have "unchanged_except A s (release_object this t1)"
        using u1 by (simp add: unchanged_except_def release_object_def A_def)
      moreover have "dom (list_size (release_object this t1)) = dom (list_size s) - {this}"
        using t1(5) d0 by (auto simp: release_object_def)
      ultimately show ?thesis unfolding A_def by blast
    qed
  qed
qed

lemma SingleLinkedList_copy_any:
  assumes "is_list s other xs" and "node s this = None" and "node s temp = None"
    and "list_size s this = None" and "list_size s temp = None" and "this \<noteq> temp"
    and "distinct (allocated als)" and "this \<notin> set (allocated als)" and "temp \<notin> set (allocated als)"
    and "\<forall>a\<in>set (allocated als). node s a = None"
  shows "\<exists>r t. SingleLinkedList_copy dflt als temp other this s = Some r \<and> result_state r = Some t \<and>
           unchanged_except (insert this (insert temp (set (allocated als)))) s t \<and>
           ((\<exists>zs. r = Returns () t \<and> is_list t this zs \<and> set (map fst zs) \<subseteq> set (allocated als) \<and>
                  dom (list_size t) = insert this (dom (list_size s))) \<or>
            (\<exists>e. r = Throws e t) \<and> dom (list_size t) = dom (list_size s))"
proof -
  define A where "A = insert this (insert temp (set (allocated als)))"
  from assms(1) obtain ho n where ho: "node s other = Some ho" "node_chain s (next_node ho) xs"
    "list_size s other = Some n" "unat n = length xs" by (auto simp: is_list_iff)
  have dead: "\<forall>b\<in>A. node s b = None" using assms(2,3,10) by (auto simp: A_def)
  with ho(1) have oA: "other \<notin> A" by auto
  have xA: "set (map fst xs) \<inter> A = {}"
  proof (rule ccontr)
    assume "set (map fst xs) \<inter> A \<noteq> {}"
    then obtain b where b: "b \<in> set (map fst xs)" "b \<in> A" by blast
    from assms(1) b(1) have "node s b \<noteq> None" by (rule is_list_live)
    moreover from dead b(2) have "node s b = None" by (rule bspec)
    ultimately show False by simp
  qed
  define s0 where "s0 = init_members dflt this s"
  have u0: "unchanged_except {this} s s0" unfolding s0_def by (rule init_members_unchanged)
  have l0: "is_list s0 this []" unfolding s0_def by (rule init_members_is_list)
  have d0: "dom (list_size s0) = insert this (dom (list_size s))"
    by (auto simp: s0_def init_members_def)
  have o0: "is_list s0 other xs"
    using assms(1) u0 by (rule is_list_frame) (use oA xA in \<open>auto simp: A_def\<close>)
  from oA have "other \<noteq> this" by (auto simp: A_def)
  then have sz0: "list_size s0 other = Some n" using ho(3) by (simp add: s0_def init_members_def)
  have e: "set (map fst ([] :: (addr \<times> 'a) list)) \<subseteq> set (allocated als)" by simp
  show ?thesis
  proof (cases xs)
    case Nil
    with ho(4) have "n = 0" by (simp add: unat_eq_0)
    with sz0 have "SingleLinkedList_copy dflt als temp other this s = Some (Returns () s0)"
      by (simp add: SingleLinkedList_copy_def IsEmpty_def s0_def)
    moreover have "result_state (Returns () s0) = Some s0" by simp
    moreover have "unchanged_except A s s0" using u0 by (rule unchanged_except_mono) (simp add: A_def)
    ultimately show ?thesis using l0 d0 e unfolding A_def by blast
  next
    case (Cons x xs')
    with ho(4) have n0: "n \<noteq> 0" by auto
    define s1 where "s1 = init_members dflt temp s0"
    have u1: "unchanged_except {temp} s0 s1" unfolding s1_def by (rule init_members_unchanged)
    have l1: "is_list s1 temp []" unfolding s1_def by (rule init_members_is_list)
    have d1: "dom (list_size s1) = insert temp (dom (list_size s0))"
      by (auto simp: s1_def init_members_def)
    have o1: "is_list s1 other xs"
      using o0 u1 by (rule is_list_frame) (use oA xA in \<open>auto simp: A_def\<close>)
    then obtain h1 where h1: "node s1 other = Some h1" "node_chain s1 (next_node h1) xs"
      by (auto simp: is_list_iff)
    have this1: "is_list s1 this []"
      using l0 u1 by (rule is_list_frame) (use assms(6) in auto)
    have f1: "\<forall>a\<in>set (allocated als). node s1 a = None"
      using assms(8,9,10) by (auto simp: s1_def s0_def init_members_def)
    have tx: "temp \<notin> set (map fst xs)" using xA by (auto simp: A_def)
    have us1: "unchanged_except A s s1" using u0 u1 by (rule unchanged_except_trans) (auto simp: A_def)
    from copy_loop_any [OF l1 _ _ h1(2) tx _ assms(7) f1, of True None]
    obtain t1 zs where t1: "result_state (copy_loop als (next_node h1) temp None True s1) = Some t1"
      "is_list t1 temp zs" "set (map fst zs) \<subseteq> set (allocated als)"
      "unchanged_except (insert temp (set (allocated als))) s1 t1"
      "dom (list_size t1) = dom (list_size s1)" by auto
    have ut1: "unchanged_except A s t1" using us1 t1(4) by (rule unchanged_except_trans) (auto simp: A_def)
    have this2: "is_list t1 this []"
      using this1 t1(4) by (rule is_list_frame) (use assms(6,8) in auto)
    have tz: "this \<notin> set (map fst zs)" "temp \<notin> set (map fst zs)" using t1(3) assms(8,9) by auto
    from t1(1) show ?thesis
    proof (cases rule: result_state_cases)
      case (returns u)
      from this2 t1(2) tz(1) have "\<exists>t. swap_lists this temp t1 = Returns () t \<and> is_list t this zs \<and> is_list t temp [] \<and>
             unchanged_except {this, temp} t1 t \<and> dom (list_size t) = dom (list_size t1) \<and>
             deleted t = deleted t1"
        by (intro swap_lists_spec) auto
      then obtain t2 where t2: "swap_lists this temp t1 = Returns () t2" "is_list t2 this zs"
        "is_list t2 temp []" "unchanged_except {this, temp} t1 t2"
        "dom (list_size t2) = dom (list_size t1)" by blast
      from destructor_spec [OF t2(3)] obtain t3 where t3: "destructor temp t2 = Some (Returns () t3)"
        "unchanged_except {temp} t2 t3" "dom (list_size t3) = dom (list_size t2) - {temp}"
        by auto
      have "SingleLinkedList_copy dflt als temp other this s = Some (Returns () t3)"
        using sz0 n0 h1(1) returns t2(1) t3(1)
        by (simp add: SingleLinkedList_copy_def IsEmpty_def const_begin_def s0_def s1_def)
      moreover have "result_state (Returns () t3) = Some t3" by simp
      moreover from t2(2) t3(2) have "is_list t3 this zs"
        by (rule is_list_frame) (use assms(6) tz in auto)
      moreover have "unchanged_except A s t3"
      proof -
        have "unchanged_except A s t2" using ut1 t2(4) by (rule unchanged_except_trans) (auto simp: A_def)
        then show ?thesis using t3(2) by (rule unchanged_except_trans) (auto simp: A_def)
      qed
      moreover have "dom (list_size t3) = insert this (dom (list_size s))"
        using t3(3) t2(5) t1(5) d1 d0 assms(5,6) by auto
      ultimately show ?thesis using t1(3) unfolding A_def by blast
    next
      case (throws e)
      from destructor_spec [OF t1(2)] obtain t2 where t2: "destructor temp t1 = Some (Returns () t2)"
        "unchanged_except (insert temp (set (map fst zs))) t1 t2"
        "dom (list_size t2) = dom (list_size t1) - {temp}" by blast
      have "SingleLinkedList_copy dflt als temp other this s = Some (Throws e (release_object this t2))"
        using sz0 n0 h1(1) throws t2(1)
        by (simp add: SingleLinkedList_copy_def IsEmpty_def const_begin_def s0_def s1_def)
      moreover have "result_state (Throws e (release_object this t2)) = Some (release_object this t2)"
        by simp
      moreover have "unchanged_except A s (release_object this t2)"
      proof -
        have "unchanged_except A s t2" using ut1 t2(2)
          by (rule unchanged_except_trans) (use t1(3) in \<open>auto simp: A_def\<close>)
        then show ?thesis by (simp add: unchanged_except_def release_object_def A_def)
      qed
      moreover have "dom (list_size (release_object this t2)) = dom (list_size s)"
        using t2(3) t1(5) d1 d0 assms(4,5,6) by (auto simp: release_object_def)
      ultimately show ?thesis unfolding A_def by blast
    qed
  qed
qed

subsection \<open>The invariant is kept\<close>

lemma wf_step:
  assumes wf: "wf_by c s" and fr: "unchanged_except A s t"
    and old: "old = (\<Union>k\<in>T \<inter> dom (list_size s). set (map fst (c k)))"
    and A: "A \<subseteq> T \<union> old \<union> {a. node s a = None}"
    and T: "T \<subseteq> dom (list_size s) \<union> {a. node s a = None}"
    and dom: "dom (list_size t) - T = dom (list_size s) - T"
    and new: "\<forall>l\<in>T \<inter> dom (list_size t). is_list t l (c' l) \<and>
                set (map fst (c' l)) \<subseteq> old \<union> {a. node s a = None} \<and> set (map fst (c' l)) \<inter> T = {}"
    and sep: "\<forall>l\<in>T \<inter> dom (list_size t). \<forall>k\<in>T \<inter> dom (list_size t).
                l \<noteq> k \<longrightarrow> set (map fst (c' l)) \<inter> set (map fst (c' k)) = {}"
  shows "wf_by (\<lambda>l. if l \<in> T then c' l else c l) t"
proof -
  let ?D = "dom (list_size s)" and ?D' = "dom (list_size t)"
  let ?dead = "{a. node s a = None}"
  have w1: "\<And>l. l \<in> ?D \<Longrightarrow> is_list s l (c l)"
    and w2: "\<And>l k. l \<in> ?D \<Longrightarrow> k \<in> ?D \<Longrightarrow> l \<noteq> k \<Longrightarrow> set (map fst (c l)) \<inter> set (map fst (c k)) = {}"
    and w3: "\<And>l. l \<in> ?D \<Longrightarrow> set (map fst (c l)) \<inter> ?D = {}"
    using wf unfolding wf_by_def by blast+
  have live_l: "l \<notin> ?dead" if "l \<in> ?D" for l
    using w1 [OF that] by (auto simp: is_list_iff)
  have live_c: "set (map fst (c l)) \<inter> ?dead = {}" if "l \<in> ?D" for l
    using is_list_live [OF w1 [OF that]] by fastforce
  have old_D: "old \<inter> ?D = {}" unfolding old using w3 by blast
  have old_dead: "old \<inter> ?dead = {}" unfolding old using live_c by blast
  have rest: "l \<in> ?D \<and> l \<notin> T" if "l \<in> ?D'" "l \<notin> T" for l
    using that dom by blast
  have cT: "set (map fst (c l)) \<inter> T = {}" if "l \<in> ?D" for l
    using T w3 [OF that] live_c [OF that] by blast
  have c_old: "set (map fst (c l)) \<inter> old = {}" if "l \<in> ?D" "l \<notin> T" for l
    unfolding old using w2 [OF that(1)] that(2) by blast
  have keep: "is_list t l (c l)" if "l \<in> ?D'" "l \<notin> T" for l
  proof -
    from rest [OF that] have l: "l \<in> ?D" "l \<notin> T" by simp_all
    have "l \<notin> A" using A l old_D live_l [OF l(1)] by blast
    moreover have "set (map fst (c l)) \<inter> A = {}"
      using A cT [OF l(1)] c_old [OF l] live_c [OF l(1)] by blast
    ultimately show ?thesis using w1 [OF l(1)] fr by (rule is_list_frame [rotated 2])
  qed
  have n1: "is_list t l (c' l)" and n2: "set (map fst (c' l)) \<subseteq> old \<union> ?dead"
    and n3: "set (map fst (c' l)) \<inter> T = {}" if "l \<in> ?D'" "l \<in> T" for l
    using new that by blast+
  show ?thesis unfolding wf_by_def
  proof (intro conjI ballI impI)
    fix l assume "l \<in> ?D'"
    then show "is_list t l (if l \<in> T then c' l else c l)"
      using keep [of l] n1 [of l] by (cases "l \<in> T") simp_all
  next
    fix l k assume lk: "l \<in> ?D'" "k \<in> ?D'" "l \<noteq> k"
    consider "l \<in> T" "k \<in> T" | "l \<in> T" "k \<notin> T" | "l \<notin> T" "k \<in> T" | "l \<notin> T" "k \<notin> T" by blast
    then show "set (map fst (if l \<in> T then c' l else c l)) \<inter> set (map fst (if k \<in> T then c' k else c k)) = {}"
    proof cases
      case 1
      from sep lk 1 have "set (map fst (c' l)) \<inter> set (map fst (c' k)) = {}" by blast
      then show ?thesis unfolding if_P [OF 1(1)] if_P [OF 1(2)] .
    next
      case 2
      from rest [OF lk(2) 2(2)] have k: "k \<in> ?D" "k \<notin> T" by simp_all
      from n2 [OF lk(1) 2(1)] c_old [OF k] live_c [OF k(1)]
      have "set (map fst (c' l)) \<inter> set (map fst (c k)) = {}" by blast
      then show ?thesis unfolding if_P [OF 2(1)] if_not_P [OF 2(2)] .
    next
      case 3
      from rest [OF lk(1) 3(1)] have l: "l \<in> ?D" "l \<notin> T" by simp_all
      from n2 [OF lk(2) 3(2)] c_old [OF l] live_c [OF l(1)]
      have "set (map fst (c l)) \<inter> set (map fst (c' k)) = {}" by blast
      then show ?thesis unfolding if_not_P [OF 3(1)] if_P [OF 3(2)] .
    next
      case 4
      from rest [OF lk(1) 4(1)] rest [OF lk(2) 4(2)] lk(3)
      have "set (map fst (c l)) \<inter> set (map fst (c k)) = {}" by (intro w2) simp_all
      then show ?thesis unfolding if_not_P [OF 4(1)] if_not_P [OF 4(2)] .
    qed
  next
    fix l assume l: "l \<in> ?D'"
    have D': "?D' \<subseteq> (?D - T) \<union> T" using dom by blast
    show "set (map fst (if l \<in> T then c' l else c l)) \<inter> ?D' = {}"
    proof (cases "l \<in> T")
      case True
      have "(old \<union> ?dead) \<inter> ?D = {}" using old_D live_l by blast
      with n2 [OF l True] n3 [OF l True] D' have "set (map fst (c' l)) \<inter> ?D' = {}" by blast
      then show ?thesis unfolding if_P [OF True] .
    next
      case False
      from rest [OF l False] have l': "l \<in> ?D" by simp
      from w3 [OF l'] cT [OF l'] D' have "set (map fst (c l)) \<inter> ?D' = {}" by blast
      then show ?thesis unfolding if_not_P [OF False] .
    qed
  qed
qed

lemma wf_empty: "wf empty_memory"
  by (simp add: wf_def wf_by_def empty_memory_def)

lemma wf_byD:
  assumes "wf_by c s"
  shows "\<And>l. l \<in> dom (list_size s) \<Longrightarrow> is_list s l (c l)"
    and "\<And>l k. l \<in> dom (list_size s) \<Longrightarrow> k \<in> dom (list_size s) \<Longrightarrow> l \<noteq> k \<Longrightarrow>
           set (map fst (c l)) \<inter> set (map fst (c k)) = {}"
    and "\<And>l. l \<in> dom (list_size s) \<Longrightarrow> set (map fst (c l)) \<inter> dom (list_size s) = {}"
  using assms unfolding wf_by_def by blast+

lemma wf_new_list:
  assumes "wf s" and "node s this = None" and "unchanged_except A s t"
    and "A \<subseteq> insert this {a. node s a = None}"
    and "(\<exists>ys. is_list t this ys \<and> set (map fst ys) \<subseteq> {a. node s a = None} \<and>
               dom (list_size t) = insert this (dom (list_size s))) \<or>
         dom (list_size t) = dom (list_size s) - {this}"
  shows "wf t"
proof -
  from assms(1) obtain c where c: "wf_by c s" by (auto simp: wf_def)
  define old where "old = (\<Union>k\<in>{this} \<inter> dom (list_size s). set (map fst (c k)))"
  have "this \<notin> dom (list_size s)" using wf_byD(1) [OF c, of this] assms(2) by (auto simp: is_list_iff)
  then have old0: "old = {}" by (simp add: old_def)
  have A: "A \<subseteq> {this} \<union> old \<union> {a. node s a = None}" using assms(4) by blast
  have T: "{this} \<subseteq> dom (list_size s) \<union> {a. node s a = None}" using assms(2) by simp
  from assms(5) show ?thesis
  proof
    assume "\<exists>ys. is_list t this ys \<and> set (map fst ys) \<subseteq> {a. node s a = None} \<and>
               dom (list_size t) = insert this (dom (list_size s))"
    then obtain ys where ys: "is_list t this ys" "set (map fst ys) \<subseteq> {a. node s a = None}"
      "dom (list_size t) = insert this (dom (list_size s))" by blast
    have d: "dom (list_size t) - {this} = dom (list_size s) - {this}" using ys(3) by blast
    have "this \<notin> set (map fst ys)" using ys(1) by (rule is_list_not_sentinel)
    with ys have new: "\<forall>l\<in>{this} \<inter> dom (list_size t). is_list t l ((\<lambda>_. ys) l) \<and>
        set (map fst ((\<lambda>_. ys) l)) \<subseteq> old \<union> {a. node s a = None} \<and> set (map fst ((\<lambda>_. ys) l)) \<inter> {this} = {}"
      by auto
    have sep: "\<forall>l\<in>{this} \<inter> dom (list_size t). \<forall>k\<in>{this} \<inter> dom (list_size t).
        l \<noteq> k \<longrightarrow> set (map fst ((\<lambda>_. ys) l)) \<inter> set (map fst ((\<lambda>_. ys) k)) = {}" by blast
    from wf_step [OF c assms(3) old_def A T d new sep] show ?thesis unfolding wf_def by blast
  next
    assume dt: "dom (list_size t) = dom (list_size s) - {this}"
    then have d: "dom (list_size t) - {this} = dom (list_size s) - {this}" by blast
    from dt have new: "\<forall>l\<in>{this} \<inter> dom (list_size t). is_list t l (c l) \<and>
        set (map fst (c l)) \<subseteq> old \<union> {a. node s a = None} \<and> set (map fst (c l)) \<inter> {this} = {}"
      by blast
    from dt have sep: "\<forall>l\<in>{this} \<inter> dom (list_size t). \<forall>k\<in>{this} \<inter> dom (list_size t).
        l \<noteq> k \<longrightarrow> set (map fst (c l)) \<inter> set (map fst (c k)) = {}" by blast
    from wf_step [OF c assms(3) old_def A T d new sep] show ?thesis unfolding wf_def by blast
  qed
qed

lemma wf_default:
  assumes "wf s" and "node s this = None"
  shows "wf (init_members dflt this s)"
proof (rule wf_new_list [OF assms])
  show "unchanged_except {this} s (init_members dflt this s)" by (rule init_members_unchanged)
  show "{this} \<subseteq> insert this {a. node s a = None}" by simp
  have "set (map fst ([] :: (addr \<times> 'a) list)) \<subseteq> {a. node s a = None}" by simp
  moreover have "dom (list_size (init_members dflt this s)) = insert this (dom (list_size s))"
    by (auto simp: init_members_def)
  ultimately show "(\<exists>ys. is_list (init_members dflt this s) this ys \<and> set (map fst ys) \<subseteq> {a. node s a = None} \<and>
               dom (list_size (init_members dflt this s)) = insert this (dom (list_size s))) \<or>
         dom (list_size (init_members dflt this s)) = dom (list_size s) - {this}"
    using init_members_is_list [of dflt this s] by blast
qed

lemma wf_init:
  assumes "wf s" and "free_storage s (this # allocated als)"
    and "result_state (SingleLinkedList_init dflt als vs this s) = Some t"
  shows "wf t"
proof -
  from assms(2) have f: "node s this = None" "distinct (allocated als)" "this \<notin> set (allocated als)"
    "\<forall>a\<in>set (allocated als). node s a = None" by (auto simp: free_storage_def)
  from SingleLinkedList_init_any [OF f, of dflt vs] obtain t' where t':
    "result_state (SingleLinkedList_init dflt als vs this s) = Some t'"
    "unchanged_except (insert this (set (allocated als))) s t'"
    "(\<exists>ys. is_list t' this ys \<and> set (map fst ys) \<subseteq> set (allocated als) \<and>
                  dom (list_size t') = insert this (dom (list_size s))) \<or>
            dom (list_size t') = dom (list_size s) - {this}" by blast
  from t'(1) assms(3) have "t' = t" by simp
  with t'(2,3) have t: "unchanged_except (insert this (set (allocated als))) s t"
    "(\<exists>ys. is_list t this ys \<and> set (map fst ys) \<subseteq> set (allocated als) \<and>
                  dom (list_size t) = insert this (dom (list_size s))) \<or>
            dom (list_size t) = dom (list_size s) - {this}" by blast+
  have sub: "set (allocated als) \<subseteq> {a. node s a = None}" using f(4) by blast
  show ?thesis
  proof (rule wf_new_list [OF assms(1) f(1) t(1)])
    show "insert this (set (allocated als)) \<subseteq> insert this {a. node s a = None}" using sub by blast
    show "(\<exists>ys. is_list t this ys \<and> set (map fst ys) \<subseteq> {a. node s a = None} \<and>
               dom (list_size t) = insert this (dom (list_size s))) \<or>
         dom (list_size t) = dom (list_size s) - {this}"
      using t(2) sub by blast
  qed
qed

lemma wf_copy:
  assumes "wf s" and "other \<in> dom (list_size s)" and "free_storage s (this # temp # allocated als)"
    and "SingleLinkedList_copy dflt als temp other this s = Some r" and "result_state r = Some t"
  shows "wf t"
proof -
  from assms(1) obtain c where c: "wf_by c s" by (auto simp: wf_def)
  from assms(3) have f: "node s this = None" "node s temp = None" "list_size s this = None"
    "list_size s temp = None" "this \<noteq> temp" "distinct (allocated als)"
    "this \<notin> set (allocated als)" "temp \<notin> set (allocated als)"
    "\<forall>a\<in>set (allocated als). node s a = None" by (auto simp: free_storage_def)
  have o: "is_list s other (c other)" using wf_byD(1) [OF c assms(2)] .
  from SingleLinkedList_copy_any [OF o f, of dflt] obtain r' t' where t':
    "SingleLinkedList_copy dflt als temp other this s = Some r'" "result_state r' = Some t'"
    "unchanged_except (insert this (insert temp (set (allocated als)))) s t'"
    "(\<exists>zs. is_list t' this zs \<and> set (map fst zs) \<subseteq> set (allocated als) \<and>
                  dom (list_size t') = insert this (dom (list_size s))) \<or>
            dom (list_size t') = dom (list_size s)" by blast
  from t'(1,2) assms(4,5) have "t' = t" by simp
  with t'(3,4) have t: "unchanged_except (insert this (insert temp (set (allocated als)))) s t"
    "(\<exists>zs. is_list t this zs \<and> set (map fst zs) \<subseteq> set (allocated als) \<and>
                  dom (list_size t) = insert this (dom (list_size s))) \<or>
            dom (list_size t) = dom (list_size s)" by blast+
  have sub: "set (allocated als) \<subseteq> {a. node s a = None}" using f(9) by blast
  have dt: "dom (list_size t) = dom (list_size s) - {this}" if "dom (list_size t) = dom (list_size s)"
    using that f(3) by auto
  have A: "insert this (insert temp (set (allocated als))) \<subseteq> insert this {a. node s a = None}"
    using sub f(2) by blast
  show ?thesis
  proof (rule wf_new_list [OF assms(1) f(1) t(1) A])
    show "(\<exists>ys. is_list t this ys \<and> set (map fst ys) \<subseteq> {a. node s a = None} \<and>
               dom (list_size t) = insert this (dom (list_size s))) \<or>
         dom (list_size t) = dom (list_size s) - {this}"
      using t(2) sub dt by blast
  qed
qed

lemma wf_mutation:
  assumes "wf s" and "this \<in> dom (list_size s)" and "mutation this s t"
  shows "wf t"
proof -
  from assms(1) obtain c where c: "wf_by c s" by (auto simp: wf_def)
  have l: "is_list s this (c this)" using wf_byD(1) [OF c assms(2)] .
  from mutation_spec [OF l assms(3)] obtain ys A where m: "is_list t this ys"
    "unchanged_except A s t" "A \<subseteq> insert this (set (map fst (c this))) \<union> {a. node s a = None}"
    "set (map fst ys) \<subseteq> set (map fst (c this)) \<union> {a. node s a = None}"
    "dom (list_size t) = dom (list_size s)" by blast
  define old where "old = (\<Union>k\<in>{this} \<inter> dom (list_size s). set (map fst (c k)))"
  have old: "old = set (map fst (c this))" using assms(2) by (auto simp: old_def)
  have A: "A \<subseteq> {this} \<union> old \<union> {a. node s a = None}" using m(3) old by blast
  have T: "{this} \<subseteq> dom (list_size s) \<union> {a. node s a = None}" using assms(2) by blast
  have d: "dom (list_size t) - {this} = dom (list_size s) - {this}" using m(5) by simp
  have "this \<notin> set (map fst ys)" using m(1) by (rule is_list_not_sentinel)
  with m(1,4) old have new: "\<forall>l\<in>{this} \<inter> dom (list_size t). is_list t l ((\<lambda>_. ys) l) \<and>
      set (map fst ((\<lambda>_. ys) l)) \<subseteq> old \<union> {a. node s a = None} \<and> set (map fst ((\<lambda>_. ys) l)) \<inter> {this} = {}"
    by auto
  have sep: "\<forall>l\<in>{this} \<inter> dom (list_size t). \<forall>k\<in>{this} \<inter> dom (list_size t).
      l \<noteq> k \<longrightarrow> set (map fst ((\<lambda>_. ys) l)) \<inter> set (map fst ((\<lambda>_. ys) k)) = {}" by blast
  from wf_step [OF c m(2) old_def A T d new sep] show ?thesis unfolding wf_def by blast
qed

lemma wf_destructor:
  assumes "wf s" and "this \<in> dom (list_size s)"
    and "destructor this s = Some r" and "result_state r = Some t"
  shows "wf t"
proof -
  from assms(1) obtain c where c: "wf_by c s" by (auto simp: wf_def)
  have l: "is_list s this (c this)" using wf_byD(1) [OF c assms(2)] .
  from destructor_spec [OF l] obtain t' where t': "destructor this s = Some (Returns () t')"
    "unchanged_except (insert this (set (map fst (c this)))) s t'"
    "dom (list_size t') = dom (list_size s) - {this}" by blast
  from t'(1) assms(3,4) have "t' = t" by auto
  with t'(2,3) have m: "unchanged_except (insert this (set (map fst (c this)))) s t"
    "dom (list_size t) = dom (list_size s) - {this}" by blast+
  define old where "old = (\<Union>k\<in>{this} \<inter> dom (list_size s). set (map fst (c k)))"
  have old: "old = set (map fst (c this))" using assms(2) by (auto simp: old_def)
  have A: "insert this (set (map fst (c this))) \<subseteq> {this} \<union> old \<union> {a. node s a = None}" using old by blast
  have T: "{this} \<subseteq> dom (list_size s) \<union> {a. node s a = None}" using assms(2) by blast
  have d: "dom (list_size t) - {this} = dom (list_size s) - {this}" using m(2) by blast
  from m(2) have new: "\<forall>l\<in>{this} \<inter> dom (list_size t). is_list t l (c l) \<and>
      set (map fst (c l)) \<subseteq> old \<union> {a. node s a = None} \<and> set (map fst (c l)) \<inter> {this} = {}"
    by blast
  from m(2) have sep: "\<forall>l\<in>{this} \<inter> dom (list_size t). \<forall>k\<in>{this} \<inter> dom (list_size t).
      l \<noteq> k \<longrightarrow> set (map fst (c l)) \<inter> set (map fst (c k)) = {}" by blast
  from wf_step [OF c m(1) old_def A T d new sep] show ?thesis unfolding wf_def by blast
qed

lemma wf_swap:
  assumes "wf s" and "this \<in> dom (list_size s)" and "other \<in> dom (list_size s)"
    and "swap_lists this other s = Returns () t"
  shows "wf t"
proof -
  from assms(1) obtain c where c: "wf_by c s" by (auto simp: wf_def)
  have l: "is_list s this (c this)" "is_list s other (c other)"
    using wf_byD(1) [OF c] assms(2,3) by blast+
  have x: "this \<notin> set (map fst (c other))" "other \<notin> set (map fst (c this))"
    using wf_byD(3) [OF c] assms(2,3) by blast+
  from swap_lists_spec [OF l x] obtain t' where t': "swap_lists this other s = Returns () t'"
    "is_list t' this (c other)" "is_list t' other (c this)" "unchanged_except {this, other} s t'"
    "dom (list_size t') = dom (list_size s)" by blast
  from t'(1) assms(4) have "t' = t" by simp
  with t'(2-5) have m: "is_list t this (c other)" "is_list t other (c this)" "unchanged_except {this, other} s t"
    "dom (list_size t) = dom (list_size s)" by blast+
  define c' where "c' = (\<lambda>l. if l = this then c other else c this)"
  define old where "old = (\<Union>k\<in>{this, other} \<inter> dom (list_size s). set (map fst (c k)))"
  have old: "old = set (map fst (c this)) \<union> set (map fst (c other))"
    using assms(2,3) by (auto simp: old_def)
  have A: "{this, other} \<subseteq> {this, other} \<union> old \<union> {a. node s a = None}" by blast
  have T: "{this, other} \<subseteq> dom (list_size s) \<union> {a. node s a = None}" using assms(2,3) by blast
  have d: "dom (list_size t) - {this, other} = dom (list_size s) - {this, other}" using m(4) by simp
  have xx: "this \<notin> set (map fst (c this))" "other \<notin> set (map fst (c other))"
    using is_list_not_sentinel [OF l(1)] is_list_not_sentinel [OF l(2)] by blast+
  have same: "c other = c this" if "other = this" using that by simp
  have new: "\<forall>l\<in>{this, other} \<inter> dom (list_size t). is_list t l (c' l) \<and>
      set (map fst (c' l)) \<subseteq> old \<union> {a. node s a = None} \<and> set (map fst (c' l)) \<inter> {this, other} = {}"
  proof (intro ballI)
    fix l assume "l \<in> {this, other} \<inter> dom (list_size t)"
    then consider "l = this" | "l = other" "l \<noteq> this" by blast
    then show "is_list t l (c' l) \<and> set (map fst (c' l)) \<subseteq> old \<union> {a. node s a = None} \<and>
        set (map fst (c' l)) \<inter> {this, other} = {}"
    proof cases
      case 1
      then have "c' l = c other" by (simp add: c'_def)
      with 1 m(1) old x xx show ?thesis by auto
    next
      case 2
      then have "c' l = c this" by (simp add: c'_def)
      with 2 m(2) old x xx show ?thesis by auto
    qed
  qed
  have sep: "\<forall>l\<in>{this, other} \<inter> dom (list_size t). \<forall>k\<in>{this, other} \<inter> dom (list_size t).
      l \<noteq> k \<longrightarrow> set (map fst (c' l)) \<inter> set (map fst (c' k)) = {}"
  proof (intro ballI impI)
    fix l k assume lk: "l \<in> {this, other} \<inter> dom (list_size t)" "k \<in> {this, other} \<inter> dom (list_size t)" "l \<noteq> k"
    then have ne: "this \<noteq> other" by auto
    from wf_byD(2) [OF c assms(2,3) ne] have dj: "set (map fst (c this)) \<inter> set (map fst (c other)) = {}" .
    from lk ne consider "l = this" "k = other" | "l = other" "k = this" by auto
    then show "set (map fst (c' l)) \<inter> set (map fst (c' k)) = {}"
    proof cases
      case 1
      with ne have "c' l = c other" "c' k = c this" by (simp_all add: c'_def)
      with dj show ?thesis by auto
    next
      case 2
      with ne have "c' l = c this" "c' k = c other" by (simp_all add: c'_def)
      with dj show ?thesis by auto
    qed
  qed
  from wf_step [OF c m(3) old_def A T d new sep] show ?thesis unfolding wf_def by blast
qed

lemma wf_assign:
  assumes "wf s" and "this \<in> dom (list_size s)" and "rhs \<in> dom (list_size s)"
    and "free_storage s (temp # temp2 # allocated als)"
    and "operator_assign dflt als temp temp2 rhs this s = Some r" and "result_state r = Some t"
  shows "wf t"
proof (cases "rhs = this")
  case True
  with assms(5,6) have "t = s" by (auto simp: operator_assign_def)
  with assms(1) show ?thesis by simp
next
  case False
  from assms(1) obtain c where c: "wf_by c s" by (auto simp: wf_def)
  from assms(4) have f: "node s temp = None" "node s temp2 = None" "list_size s temp = None"
    "list_size s temp2 = None" "temp \<noteq> temp2" "distinct (allocated als)"
    "temp \<notin> set (allocated als)" "temp2 \<notin> set (allocated als)"
    "\<forall>a\<in>set (allocated als). node s a = None" by (auto simp: free_storage_def)
  have o: "is_list s rhs (c rhs)" using wf_byD(1) [OF c assms(3)] .
  from SingleLinkedList_copy_any [OF o f, of dflt] obtain r1 t1 where t1:
    "SingleLinkedList_copy dflt als temp2 rhs temp s = Some r1" "result_state r1 = Some t1"
    "(\<exists>zs. r1 = Returns () t1 \<and> is_list t1 temp zs \<and> set (map fst zs) \<subseteq> set (allocated als) \<and>
                  dom (list_size t1) = insert temp (dom (list_size s))) \<or>
            (\<exists>e. r1 = Throws e t1) \<and> dom (list_size t1) = dom (list_size s)" by blast
  have w1: "wf t1" using assms(1,3,4) t1(1,2) by (rule wf_copy)
  from t1(3) show ?thesis
  proof
    assume "(\<exists>e. r1 = Throws e t1) \<and> dom (list_size t1) = dom (list_size s)"
    then obtain e where "r1 = Throws e t1" by blast
    with False t1(1) assms(5,6) have "t = t1" by (auto simp: operator_assign_def)
    with w1 show ?thesis by simp
  next
    assume "\<exists>zs. r1 = Returns () t1 \<and> is_list t1 temp zs \<and> set (map fst zs) \<subseteq> set (allocated als) \<and>
                  dom (list_size t1) = insert temp (dom (list_size s))"
    then have r1: "r1 = Returns () t1" and d1: "dom (list_size t1) = insert temp (dom (list_size s))"
      by blast+
    from d1 assms(2) have in1: "this \<in> dom (list_size t1)" "temp \<in> dom (list_size t1)" by blast+
    from w1 obtain c1 where c1: "wf_by c1 t1" by (auto simp: wf_def)
    have l: "is_list t1 this (c1 this)" "is_list t1 temp (c1 temp)"
      using wf_byD(1) [OF c1] in1 by blast+
    have x: "this \<notin> set (map fst (c1 temp))" "temp \<notin> set (map fst (c1 this))"
      using wf_byD(3) [OF c1] in1 by blast+
    from swap_lists_spec [OF l x] obtain t2 where t2: "swap_lists this temp t1 = Returns () t2"
      "is_list t2 temp (c1 this)" "dom (list_size t2) = dom (list_size t1)" by blast
    have w2: "wf t2" using w1 in1 t2(1) by (rule wf_swap)
    from destructor_spec [OF t2(2)] obtain t3 where t3: "destructor temp t2 = Some (Returns () t3)"
      by blast
    have rs: "result_state (Returns () t3) = Some t3" by simp
    have in2: "temp \<in> dom (list_size t2)" using in1(2) t2(3) by simp
    from w2 in2 t3 rs have w3: "wf t3" by (rule wf_destructor)
    have "operator_assign dflt als temp temp2 rhs this s = Some (Returns () t3)"
      using False t1(1) r1 t2(1) t3 by (simp add: operator_assign_def)
    with assms(5,6) have "t = t3" by auto
    with w3 show ?thesis by simp
  qed
qed

lemma reachable_wf:
  assumes "reachable s"
  shows "wf s"
  using assms
proof (induction rule: reachable.induct)
  case start
  show ?case by (rule wf_empty)
next
  case (default_constructor s this dflt t)
  then have "node s this = None" "t = init_members dflt this s"
    by (auto simp: free_storage_def SingleLinkedList_default_def)
  with default_constructor.IH show ?case by (simp add: wf_default)
next
  case (init_constructor s this als dflt vs t)
  then show ?case by (blast intro: wf_init)
next
  case (copy_constructor s other this temp als dflt r t)
  then show ?case by (blast intro: wf_copy)
next
  case (copy_assignment s this rhs temp temp2 als dflt r t)
  then show ?case by (blast intro: wf_assign)
next
  case (mutator s this t)
  then show ?case by (blast intro: wf_mutation)
next
  case (swap s this other t)
  then show ?case by (blast intro: wf_swap)
next
  case (destructor s this r t)
  then show ?case by (blast intro: wf_destructor)
qed

lemma chain_on_list:
  assumes "on_list s this q" and "node_chain s (Some q) ((q, w) # rest)"
  shows "\<forall>a\<in>set (map fst rest). on_list s this a"
  using assms
proof (induction rest arbitrary: q w)
  case Nil
  then show ?case by simp
next
  case (Cons x rest)
  obtain a u where x: "x = (a, u)" by (cases x)
  with Cons.prems(2) obtain n where n: "node s q = Some n" "next_node n = Some a"
    "node_chain s (Some a) ((a, u) # rest)" by auto
  from Cons.prems(1) n(1,2) have a: "on_list s this a" by (rule on_list.successor)
  from Cons.IH [OF a n(3)] a x show ?case by simp
qed

lemma on_list_eq:
  assumes "is_list s this xs"
  shows "{p. on_list s this p} = insert this (set (map fst xs))"
proof (intro equalityI subsetI)
  fix p assume "p \<in> {p. on_list s this p}"
  then have "on_list s this p" by simp
  with assms show "p \<in> insert this (set (map fst xs))" by (rule on_list_cells)
next
  fix p assume p: "p \<in> insert this (set (map fst xs))"
  from assms obtain h :: "'a Node" where "node_chain s (Some this) ((this, node_value h) # xs)"
    by (auto simp: is_list_iff)
  with on_list.sentinel [of s this] have "\<forall>a\<in>set (map fst xs). on_list s this a"
    by (rule chain_on_list)
  with p on_list.sentinel [of s this] show "p \<in> {p. on_list s this p}" by auto
qed

subsection \<open>Comparison of well-formed lists\<close>

lemma lists_12_123_constructed:
  "\<exists>s. SingleLinkedList_init 0 [At 11, At 12] [1, 2] 1 empty_memory = Returns () s \<and>
       SingleLinkedList_init 0 [At 21, At 22, At 23] [1, 2, 3] 2 s = Returns () lists_12_123"
  by (simp add: SingleLinkedList_init_def init_members_def append_node_def new_Node_def
      empty_memory_def lists_12_123_def fun_upd_twist)

lemma operator_eq_prefix:
  assumes "is_list s lhs xs" and "is_list s rhs ys" and "length xs \<le> length ys"
  shows "operator_eq lhs rhs s = Some (Value (map snd xs = take (length xs) (map snd ys)))"
proof -
  from assms(1) obtain h where h: "node s lhs = Some h" "node_chain s (next_node h) xs"
    by (auto simp: is_list_iff)
  from assms(2) obtain k where k: "node s rhs = Some k" "node_chain s (next_node k) ys"
    by (auto simp: is_list_iff)
  from std_equal_chain [OF h(2) k(2) assms(3)] h(1) k(1) show ?thesis
    by (simp add: operator_eq_def const_begin_def const_end_def)
qed

section \<open>The claims\<close>

text \<open>
  C2. When the \<open>new Node(value, ...)\<close> of \<open>InsertAfter\<close> throws (from the allocation or
  from copying the value), the call at a valid position throws that exception and the
  memory, hence the size and the elements of the list, is as before the call.
\<close>

theorem InsertAfter_strong_guarantee:
  assumes "is_list s this xs" and "valid_pos this xs pos"
  shows "InsertAfter (Fails e) pos val this s = Throws e s"
proof -
  from assms(2) obtain p where p: "pos = Some p"
    by (cases pos) (auto simp: valid_pos_def)
  with assms have "node s p \<noteq> None" by (auto dest: valid_pos_live)
  with p show ?thesis by (auto simp: InsertAfter_def new_Node_def)
qed

theorem InsertAfter_strong_guarantee_witness:
  "is_list one_elem 1 [(2, 5)] \<and> valid_pos 1 [(2, 5)] (Some 2) \<and>
   InsertAfter (Fails bad_alloc) (Some 2) 7 1 one_elem = Throws bad_alloc one_elem"
  using InsertAfter_strong_guarantee [of one_elem 1 "[(2, 5)]" "Some 2" bad_alloc 7]
  by (simp add: one_elem_def is_list_def valid_pos_def)

text \<open>
  C10. \<open>PopFront\<close> on an empty list takes the guarded branch: it returns and leaves
  the whole memory (the list, its size 0, every node, the record of deletions) as it was.
\<close>

theorem PopFront_empty_noop:
  assumes "is_list s this []"
  shows "PopFront this s = Returns () s"
  using assms by (auto simp: PopFront_def IsEmpty_def is_list_def unat_eq_0 split: option.splits)

theorem PopFront_empty_noop_witness:
  "is_list no_elem 1 [] \<and> PopFront 1 no_elem = Returns () no_elem"
  using PopFront_empty_noop [of no_elem 1]
  by (simp add: no_elem_def is_list_def)

text \<open>
  C7. The iterator before the beginning, incremented once, is the iterator to the
  beginning, for the mutable and for the const view; on an empty list it is the end.
\<close>

theorem before_begin_inc_is_begin:
  assumes "is_list s this xs"
  shows "(\<exists>it b. iter_inc s (before_begin this) = Value it \<and> list_begin this s = Value b \<and> iter_eq it b) \<and>
         (\<exists>it b. iter_inc s (cbefore_begin this) = Value it \<and> const_begin this s = Value b \<and> iter_eq it b) \<and>
         (xs = [] \<longrightarrow> iter_inc s (before_begin this) = Value list_end \<and>
                      iter_inc s (cbefore_begin this) = Value const_end)"
  using assms
  by (auto simp: is_list_def iter_inc_def before_begin_def cbefore_begin_def list_begin_def
      const_begin_def iter_eq_def list_end_def const_end_def split: option.splits)

theorem before_begin_inc_is_begin_witness:
  "is_list no_elem 1 [] \<and> iter_inc no_elem (before_begin 1) = Value list_end \<and>
   iter_inc no_elem (cbefore_begin 1) = Value const_end"
  using before_begin_inc_is_begin [of no_elem 1 "[]"]
  by (simp add: no_elem_def is_list_def)

text \<open>
  C1. The claim asks \<open>operator==\<close> to tell lists of different length apart. The code
  compares with the three-argument \<open>std::equal\<close>, which never looks at the length of
  the right operand: \<open>{1, 2} == {1, 2, 3}\<close> evaluates to true, and with the operands
  exchanged the scan runs off the shorter list into the \<open>assert\<close> of \<open>operator*\<close>.
\<close>

theorem operator_eq_accepts_longer_rhs:
  "is_list lists_12_123 1 [(11, 1), (12, 2)] \<and>
   is_list lists_12_123 2 [(21, 1), (22, 2), (23, 3)] \<and>
   operator_eq 1 2 lists_12_123 = Some (Value True) \<and>
   operator_eq 2 1 lists_12_123 = Some AssertFailed"
proof -
  have l: "is_list lists_12_123 1 [(11, 1), (12, 2)]"
    by (simp add: is_list_def lists_12_123_def)
  have r: "is_list lists_12_123 2 [(21, 1), (22, 2), (23, 3)]"
    by (simp add: is_list_def lists_12_123_def)
  have "operator_eq 1 2 lists_12_123 = Some (Value True)"
    using operator_eq_prefix [OF l r] by simp
  moreover have "operator_eq 2 1 lists_12_123 = Some AssertFailed"
    by (simp add: operator_eq_def const_begin_def const_end_def lists_12_123_def
        std_equal.simps iter_neq_def iter_deref_def iter_inc_def)
  ultimately show ?thesis using l r by simp
qed

text \<open>
  C8. On well-formed lists \<open>operator<\<close> and \<open>operator>\<close> return the lexicographic
  order of the element sequences; so \<open>{1, 2, 3} < {1, 2, 4}\<close> and \<open>{1, 2} < {1, 2, 3}\<close>
  hold, and lists with equal elements are neither less nor greater.
\<close>

theorem comparison_is_lexicographic:
  fixes s :: "('a::linordered_idom) memory"
  assumes "is_list s lhs xs" and "is_list s rhs ys"
  shows "operator_less lhs rhs s = Some (Value (ord_class.lexordp (map snd xs) (map snd ys))) \<and>
         operator_greater lhs rhs s = Some (Value (ord_class.lexordp (map snd ys) (map snd xs))) \<and>
         (map snd xs = [1, 2, 3] \<and> map snd ys = [1, 2, 4] \<longrightarrow>
            operator_less lhs rhs s = Some (Value True)) \<and>
         (map snd xs = [1, 2] \<and> map snd ys = [1, 2, 3] \<longrightarrow>
            operator_less lhs rhs s = Some (Value True)) \<and>
         (map snd xs = map snd ys \<longrightarrow>
            operator_less lhs rhs s = Some (Value False) \<and>
            operator_greater lhs rhs s = Some (Value False))"
proof -
  from assms(1) obtain h where h: "node s lhs = Some h" "node_chain s (next_node h) xs"
    by (auto simp: is_list_iff)
  from assms(2) obtain k where k: "node s rhs = Some k" "node_chain s (next_node k) ys"
    by (auto simp: is_list_iff)
  have less: "operator_less lhs rhs s = Some (Value (ord_class.lexordp (map snd xs) (map snd ys)))"
    using std_lexicographical_compare_chain [OF h(2) k(2)] h(1) k(1)
    by (simp add: operator_less_def const_begin_def const_end_def)
  have greater: "operator_greater lhs rhs s = Some (Value (ord_class.lexordp (map snd ys) (map snd xs)))"
    using std_lexicographical_compare_chain [OF k(2) h(2)] h(1) k(1)
    by (simp add: operator_greater_def operator_less_def const_begin_def const_end_def)
  have irrefl: "\<not> ord_class.lexordp zs zs" for zs :: "'a list"
    by (rule lexordp_irreflexive) simp
  show ?thesis
    unfolding less greater using irrefl by auto
qed

theorem comparison_is_lexicographic_witness:
  "is_list lists_12_123 1 [(11, 1), (12, 2)] \<and>
   is_list lists_12_123 2 [(21, 1), (22, 2), (23, 3)] \<and>
   operator_less 1 2 lists_12_123 = Some (Value True) \<and>
   operator_greater 1 2 lists_12_123 = Some (Value False) \<and>
   operator_less 1 1 lists_12_123 = Some (Value False) \<and>
   operator_greater 1 1 lists_12_123 = Some (Value False)"
proof -
  have l: "is_list lists_12_123 1 [(11, 1), (12, 2)]"
    by (simp add: is_list_def lists_12_123_def)
  have r: "is_list lists_12_123 2 [(21, 1), (22, 2), (23, 3)]"
    by (simp add: is_list_def lists_12_123_def)
  show ?thesis
    using comparison_is_lexicographic [OF l r] comparison_is_lexicographic [OF l l] l r by simp
qed

text \<open>
  C6. \<open>pos\<close> is the sentinel or a node of the list: the cell \<open>(p, w)\<close> of the chain that
  starts with the sentinel, \<open>rest\<close> being the cells behind it. Without a successor
  \<open>EraseAfter\<close> returns \<open>end()\<close> and changes nothing. With a successor \<open>(d, u)\<close> it
  returns the position of the node behind \<open>d\<close> (\<open>end()\<close> if there is none); the list is
  the old one without that cell, its size is one less, the node \<open>d\<close> is released (its
  payload \<open>u\<close> the one deletion recorded) and only the list object, the node at \<open>pos\<close>
  and \<open>d\<close> were touched.
\<close>

theorem EraseAfter_removes_successor:
  assumes "is_list s this xs" and "node s this = Some h"
    and "(this, node_value h) # xs = pre @ (p, w) # rest"
  shows "(rest = [] \<longrightarrow> EraseAfter (Some p) this s = Returns list_end s) \<and>
         (\<forall>d u post. rest = (d, u) # post \<longrightarrow>
            (\<exists>t. EraseAfter (Some p) this s =
                    Returns (case post of [] \<Rightarrow> list_end | y # ys \<Rightarrow> Some (fst y)) t \<and>
                  is_list t this (tl (pre @ (p, w) # post)) \<and>
                  node t d = None \<and> deleted t = deleted s @ [u] \<and>
                  unchanged_except {this, p, d} s t \<and>
                  (\<exists>n m. GetSize this s = Value n \<and> GetSize this t = Value m \<and>
                         unat n = Suc (unat m))))"
proof (intro conjI allI impI)
  assume "rest = []"
  with assms show "EraseAfter (Some p) this s = Returns list_end s"
    by (auto intro: EraseAfter_last)
next
  fix d u post
  assume rest: "rest = (d, u) # post"
  with assms(3) have dec: "(this, node_value h) # xs = pre @ (p, w) # (d, u) # post" by simp
  from EraseAfter_spec [OF assms(1,2) dec] obtain t where t:
    "EraseAfter (Some p) this s = Returns (case post of [] \<Rightarrow> list_end | y # ys \<Rightarrow> Some (fst y)) t"
    "is_list t this (tl (pre @ (p, w) # post))" "node t d = None" "deleted t = deleted s @ [u]"
    "unchanged_except {this, p, d} s t" by blast
  from dec have "length xs = Suc (length (tl (pre @ (p, w) # post)))"
    by (metis length_Cons length_append length_tl list.sel(3) add_Suc_right diff_Suc_1 nat.inject)
  with assms(1) t(2) have "\<exists>n m. GetSize this s = Value n \<and> GetSize this t = Value m \<and> unat n = Suc (unat m)"
    by (auto simp: is_list_iff GetSize_def)
  with t show "\<exists>t. EraseAfter (Some p) this s =
                    Returns (case post of [] \<Rightarrow> list_end | y # ys \<Rightarrow> Some (fst y)) t \<and>
                  is_list t this (tl (pre @ (p, w) # post)) \<and>
                  node t d = None \<and> deleted t = deleted s @ [u] \<and>
                  unchanged_except {this, p, d} s t \<and>
                  (\<exists>n m. GetSize this s = Value n \<and> GetSize this t = Value m \<and>
                         unat n = Suc (unat m))" by blast
qed

theorem EraseAfter_removes_successor_witness:
  "is_list five_elems 1 [(11, 3), (12, 14), (13, 15), (14, 92), (15, 6)] \<and>
   (\<exists>t. EraseAfter (Some 11) 1 five_elems = Returns (Some 13) t \<and>
        is_list t 1 [(11, 3), (13, 15), (14, 92), (15, 6)] \<and> deleted t = [14]) \<and>
   EraseAfter (Some 15) 1 five_elems = Returns list_end five_elems"
  using EraseAfter_removes_successor [of five_elems 1 "[(11, 3), (12, 14), (13, 15), (14, 92), (15, 6)]"
      "\<lparr>node_value = 0, next_node = Some 11\<rparr>" "[(1, 0)]" 11 3 "[(12, 14), (13, 15), (14, 92), (15, 6)]"]
    EraseAfter_removes_successor [of five_elems 1 "[(11, 3), (12, 14), (13, 15), (14, 92), (15, 6)]"
      "\<lparr>node_value = 0, next_node = Some 11\<rparr>" "[(1, 0), (11, 3), (12, 14), (13, 15), (14, 92)]" 15 6 "[]"]
  by (simp add: five_elems_def is_list_def) blast

text \<open>
  C9. \<open>PopFront\<close> on a list with first cell \<open>(d, u)\<close> returns; the list is then the
  rest in its order, the size is one less, the node \<open>d\<close> is released, \<open>u\<close> is the one
  payload whose deletion is recorded, and only the list object and \<open>d\<close> were touched.
\<close>

theorem PopFront_removes_first:
  assumes "is_list s this ((d, u) # post)"
  shows "\<exists>t. PopFront this s = Returns () t \<and> is_list t this post \<and>
             node t d = None \<and> deleted t = deleted s @ [u] \<and>
             unchanged_except {this, d} s t \<and>
             (\<exists>n m. GetSize this s = Value n \<and> GetSize this t = Value m \<and> unat n = Suc (unat m))"
proof -
  from PopFront_spec [OF assms] obtain t where t: "PopFront this s = Returns () t"
    "is_list t this post" "node t d = None" "deleted t = deleted s @ [u]"
    "unchanged_except {this, d} s t" by blast
  from assms t(2) have "\<exists>n m. GetSize this s = Value n \<and> GetSize this t = Value m \<and> unat n = Suc (unat m)"
    by (auto simp: is_list_iff GetSize_def)
  with t show ?thesis by blast
qed

theorem PopFront_removes_first_witness:
  "is_list five_elems 1 [(11, 3), (12, 14), (13, 15), (14, 92), (15, 6)] \<and>
   (\<exists>t. PopFront 1 five_elems = Returns () t \<and>
        is_list t 1 [(12, 14), (13, 15), (14, 92), (15, 6)] \<and>
        node t 11 = None \<and> deleted t = [3] \<and>
        (\<exists>m. GetSize 1 t = Value m \<and> unat m = 4))"
  using PopFront_removes_first [of five_elems 1 11 3 "[(12, 14), (13, 15), (14, 92), (15, 6)]"]
  by (simp add: five_elems_def is_list_def GetSize_def) blast

text \<open>
  C4. Constructing a list from the sequence \<open>S\<close> in free storage (the object at
  \<open>this\<close>, each \<open>new\<close> succeeding at a fresh address of \<open>as\<close>) returns; the loop from
  \<open>begin()\<close> to \<open>end()\<close> over the new list then collects exactly \<open>S\<close>, and \<open>GetSize()\<close>
  is the length of \<open>S\<close>.
\<close>

theorem init_list_roundtrip:
  assumes "node s this = None" and "distinct as" and "this \<notin> set as"
    and "\<forall>a\<in>set as. node s a = None" and "length S \<le> length as"
  shows "\<exists>t b n. SingleLinkedList_init dflt (map At as) S this s = Returns () t \<and>
           list_begin this t = Value b \<and> traverse t b list_end [] = Some (Value S) \<and>
           GetSize this t = Value n \<and> unat n = length S"
proof -
  from SingleLinkedList_init_spec [OF assms, of dflt]
  obtain t where t: "SingleLinkedList_init dflt (map At as) S this s = Returns () t"
    "is_list t this (zip as S)" by blast
  from t(2) obtain h n where h: "node t this = Some h" "node_chain t (next_node h) (zip as S)"
    "list_size t this = Some n" "unat n = length (zip as S)" by (auto simp: is_list_iff)
  have S: "map snd (zip as S) = S" using assms(5) by (simp add: map_snd_zip_take)
  from traverse_chain [OF h(2), of "[]"] S
  have "traverse t (next_node h) list_end [] = Some (Value S)" by (simp add: list_end_def)
  moreover have "list_begin this t = Value (next_node h)" using h(1) by (simp add: list_begin_def)
  moreover have "GetSize this t = Value n" using h(3) by (simp add: GetSize_def)
  moreover have "unat n = length S" using h(4) assms(5) by simp
  ultimately show ?thesis using t(1) by blast
qed

theorem init_list_roundtrip_witness:
  "node (empty_memory :: int memory) 1 = None \<and> distinct [5, 6, 7 :: addr] \<and>
   (\<exists>t b n. SingleLinkedList_init (0 :: int) [At 5, At 6, At 7] [10, 20, 30] 1 empty_memory = Returns () t \<and>
           list_begin 1 t = Value b \<and> traverse t b list_end [] = Some (Value [10, 20, 30]) \<and>
           GetSize 1 t = Value n \<and> unat n = length [10, 20, 30 :: int])"
  using init_list_roundtrip [of "empty_memory :: int memory" 1 "[5, 6, 7]" "[10, 20, 30]" 0]
  by (simp add: empty_memory_def)

text \<open>
  C5. Copy-constructing from the list \<open>other\<close> with contents \<open>xs\<close> (in free storage,
  every \<open>new\<close> succeeding) yields a list with the same payloads in the same order,
  for which \<open>operator==\<close> against \<open>other\<close> is true, built from nodes none of which is a
  node of \<open>other\<close>. After any number of mutator calls on the copy (\<open>PushFront\<close>,
  \<open>PopFront\<close>, \<open>InsertAfter\<close>, \<open>EraseAfter\<close>, \<open>Clear\<close>, returning or throwing) \<open>other\<close>
  still has the contents \<open>xs\<close> and the size to match.
\<close>

theorem copy_is_deep:
  assumes "is_list s other xs" and "node s this = None" and "node s temp = None"
    and "list_size s temp = None" and "this \<noteq> temp"
    and "distinct as" and "this \<notin> set as" and "temp \<notin> set as"
    and "\<forall>a\<in>set as. node s a = None" and "length xs \<le> length as"
  shows "\<exists>t zs. SingleLinkedList_copy dflt (map At as) temp other this s = Some (Returns () t) \<and>
           is_list t this zs \<and> map snd zs = map snd xs \<and>
           operator_eq this other t = Some (Value True) \<and>
           is_list t other xs \<and> set (map fst zs) \<inter> set (map fst xs) = {} \<and>
           (\<forall>u. (mutation this)\<^sup>*\<^sup>* t u \<longrightarrow> is_list u other xs)"
proof -
  define zs where "zs = zip as (map snd xs)"
  from SingleLinkedList_copy_spec [OF assms, of dflt]
  obtain t where t: "SingleLinkedList_copy dflt (map At as) temp other this s = Some (Returns () t)"
    "is_list t this zs" "is_list t other xs" unfolding zs_def by blast
  have vals: "map snd zs = map snd xs" using assms(10) by (simp add: zs_def map_snd_zip_take)
  then have "length zs = length xs" by (metis length_map)
  with operator_eq_prefix [OF t(2,3)] vals
  have eq: "operator_eq this other t = Some (Value True)" by simp
  have addrs: "set (map fst zs) \<subseteq> set as" unfolding zs_def by (auto dest: set_zip_leftD)
  have live: "\<forall>b\<in>insert other (set (map fst xs)). node s b \<noteq> None"
    using is_list_live [OF assms(1)] assms(1) by (auto simp: is_list_iff)
  have disj: "set (map fst zs) \<inter> insert other (set (map fst xs)) = {}"
    using addrs live assms(9) by blast
  have to: "this \<noteq> other" "this \<notin> set (map fst xs)" using live assms(2) by auto
  have "\<forall>u. (mutation this)\<^sup>*\<^sup>* t u \<longrightarrow> is_list u other xs"
    using mutations_keep_other [OF _ t(3,2) to disj] by blast
  moreover from disj have "set (map fst zs) \<inter> set (map fst xs) = {}" by blast
  ultimately show ?thesis using t vals eq by blast
qed

theorem copy_is_deep_witness:
  "is_list one_elem 1 [(2, 5)] \<and> node one_elem 3 = None \<and> node one_elem 4 = None \<and>
   (\<exists>t zs. SingleLinkedList_copy 0 [At 7] 4 1 3 one_elem = Some (Returns () t) \<and>
      is_list t 3 zs \<and> map snd zs = [5] \<and> operator_eq 3 1 t = Some (Value True) \<and>
      is_list t 1 [(2, 5)] \<and> (\<forall>u. mutation 3 t u \<longrightarrow> is_list u 1 [(2, 5)]))"
proof -
  have l: "is_list one_elem 1 [(2, 5)]" by (simp add: one_elem_def is_list_def)
  have "\<exists>t zs. SingleLinkedList_copy 0 (map At [7]) 4 1 3 one_elem = Some (Returns () t) \<and>
           is_list t 3 zs \<and> map snd zs = map snd [(2 :: addr, 5 :: int)] \<and>
           operator_eq 3 1 t = Some (Value True) \<and>
           is_list t 1 [(2, 5)] \<and> set (map fst zs) \<inter> set (map fst [(2 :: addr, 5 :: int)]) = {} \<and>
           (\<forall>u. (mutation 3)\<^sup>*\<^sup>* t u \<longrightarrow> is_list u 1 [(2, 5)])"
    by (rule copy_is_deep [OF l]) (simp_all add: one_elem_def)
  then obtain t zs where t: "SingleLinkedList_copy 0 (map At [7]) 4 1 3 one_elem = Some (Returns () t)"
    "is_list t 3 zs" "map snd zs = map snd [(2 :: addr, 5 :: int)]" "operator_eq 3 1 t = Some (Value True)"
    "is_list t 1 [(2, 5)]" "\<forall>u. (mutation 3)\<^sup>*\<^sup>* t u \<longrightarrow> is_list u 1 [(2, 5)]" by blast
  from t(6) have "\<forall>u. mutation 3 t u \<longrightarrow> is_list u 1 [(2, 5)]" by blast
  with t(1-5) have "\<exists>t zs. SingleLinkedList_copy 0 [At 7] 4 1 3 one_elem = Some (Returns () t) \<and>
      is_list t 3 zs \<and> map snd zs = [5] \<and> operator_eq 3 1 t = Some (Value True) \<and>
      is_list t 1 [(2, 5)] \<and> (\<forall>u. mutation 3 t u \<longrightarrow> is_list u 1 [(2, 5)])"
    by auto
  moreover have "node one_elem 3 = None" "node one_elem 4 = None" by (simp_all add: one_elem_def)
  ultimately show ?thesis using l by blast
qed

text \<open>
  C3. In every memory reachable from the empty one by constructors, mutators, swap,
  copy construction, copy assignment and destructors, each list object has a chain
  \<open>xs\<close> behind its sentinel that ends in \<open>nullptr\<close> and visits no node twice nor the
  sentinel; the positions reachable from the sentinel are exactly the sentinel and
  the nodes of \<open>xs\<close>, and the size counter is the number of those nodes.
\<close>

theorem reachable_lists_well_formed:
  assumes "reachable s" and "list_size s this = Some n"
  shows "\<exists>h xs. node s this = Some h \<and> node_chain s (next_node h) xs \<and>
           distinct (map fst xs) \<and> this \<notin> set (map fst xs) \<and> unat n = length xs \<and>
           {p. on_list s this p} = insert this (set (map fst xs))"
proof -
  from assms(1) have "wf s" by (rule reachable_wf)
  then obtain c where c: "wf_by c s" by (auto simp: wf_def)
  from assms(2) have "this \<in> dom (list_size s)" by blast
  then have l: "is_list s this (c this)" by (rule wf_byD(1) [OF c])
  with assms(2) obtain h where h: "node s this = Some h" "node_chain s (next_node h) (c this)"
    "unat n = length (c this)" by (auto simp: is_list_iff)
  from h(2) have "distinct (map fst (c this))" by (rule node_chain_distinct)
  moreover from l have "this \<notin> set (map fst (c this))" by (rule is_list_not_sentinel)
  moreover from l have "{p. on_list s this p} = insert this (set (map fst (c this)))" by (rule on_list_eq)
  ultimately show ?thesis using h by blast
qed

theorem reachable_lists_well_formed_witness:
  "reachable lists_12_123 \<and> list_size lists_12_123 2 = Some 3 \<and>
   (\<exists>h xs. node lists_12_123 2 = Some h \<and> node_chain lists_12_123 (next_node h) xs \<and>
      distinct (map fst xs) \<and> unat (3 :: size_t) = length xs)"
proof -
  from lists_12_123_constructed obtain s :: "int memory"
    where s: "SingleLinkedList_init 0 [At 11, At 12] [1, 2] 1 empty_memory = Returns () s"
      "SingleLinkedList_init 0 [At 21, At 22, At 23] [1, 2, 3] 2 s = Returns () lists_12_123"
    by blast
  have s_eq: "s = \<lparr>node = [1 \<mapsto> \<lparr>node_value = 0, next_node = Some 11\<rparr>,
              11 \<mapsto> \<lparr>node_value = 1, next_node = Some 12\<rparr>,
              12 \<mapsto> \<lparr>node_value = 2, next_node = None\<rparr>],
      list_size = [1 \<mapsto> 2], deleted = []\<rparr>"
    using s(1) by (simp add: SingleLinkedList_init_def init_members_def append_node_def new_Node_def
        empty_memory_def fun_upd_twist)
  have "reachable s"
  proof (rule reachable.init_constructor [OF reachable.start])
    show "free_storage (empty_memory :: int memory) (1 # allocated [At 11, At 12])"
      by (simp add: free_storage_def empty_memory_def)
    show "result_state (SingleLinkedList_init 0 [At 11, At 12] [1, 2] 1 empty_memory) = Some s"
      using s(1) by simp
  qed
  then have r: "reachable lists_12_123"
  proof (rule reachable.init_constructor)
    show "free_storage s (2 # allocated [At 21, At 22, At 23])"
      by (simp add: free_storage_def s_eq)
    show "result_state (SingleLinkedList_init 0 [At 21, At 22, At 23] [1, 2, 3] 2 s) = Some lists_12_123"
      using s(2) by simp
  qed
  have z: "list_size lists_12_123 2 = Some 3" by (simp add: lists_12_123_def)
  from reachable_lists_well_formed [OF r z] r z show ?thesis by blast
qed

end
